theory Spec2Isabelle
  imports Complex_Main "HOL-Library.Multiset" "HOL-Library.Sublist"
begin

section \<open>Strings and numbers of the Python source\<close>

text \<open>
  A Python \<open>str\<close> is a sequence of Unicode code points: \<open>len\<close>, slicing and the
  regular expressions of the source all count code points. A string is therefore a list
  of code points (natural numbers); \<open>ustr\<close> embeds an ASCII literal.

  The latency of a result is a Python \<open>float\<close> (a measured time) or an \<open>int\<close>
  (\<open>0\<close>, \<open>timeout * 1000\<close>). Both are rational numbers, and the model computes with
  them exactly: the rounding of binary floating point arithmetic is not part of the model.
\<close>

type_synonym ustring = "nat list"

definition ustr :: "string \<Rightarrow> ustring" where
  "ustr s = map of_char s"

text \<open>\<open>s.startswith(p)\<close>\<close>

definition startswith :: "ustring \<Rightarrow> ustring \<Rightarrow> bool" where
  "startswith s p = (take (length p) s = p)"

text \<open>\<open>str(n)\<close> for an integer, as the f-string \<open>f"HTTP {status}"\<close> formats it.\<close>

function str_nat :: "nat \<Rightarrow> ustring" where
  "str_nat n = (if n < 10 then [48 + n] else str_nat (n div 10) @ [48 + n mod 10])"
  by pat_completeness auto
termination
  by (relation "measure (\<lambda>n. n)") auto

declare str_nat.simps [simp del]

definition str_int :: "int \<Rightarrow> ustring" where
  "str_int i = (if i < 0 then 45 # str_nat (nat (- i)) else str_nat (nat i))"

section \<open>ProxyResult and the checker objects\<close>

text \<open>
  The dataclass \<open>ProxyResult\<close> (the same in \<open>proxy_checker.py\<close> and
  \<open>proxy_checker_cli.py\<close>); \<open>status\<close> is one of the strings \<open>success\<close>,
  \<open>failed\<close>, \<open>timeout\<close>.
\<close>

record proxy_result =
  proxy :: ustring
  protocol :: ustring
  status :: ustring
  latency :: rat
  error :: ustring

text \<open>
  \<open>ProxyChecker\<close> (\<open>proxy_checker.py\<close>) has the fields \<open>test_url\<close>, \<open>timeout\<close>
  and \<open>results\<close>; \<open>ProxyCheckerCLI\<close> (\<open>proxy_checker_cli.py\<close>) has
  \<open>concurrency\<close> and \<open>verbose\<close> as well.
\<close>

record proxy_checker =
  test_url :: ustring
  timeout :: int
  results :: "proxy_result list"

record proxy_checker_cli = proxy_checker +
  concurrency :: int
  verbose :: bool

section \<open>The network and the clock\<close>

text \<open>
  What a probe raises. \<open>Timeout\<close> is \<open>requests.exceptions.Timeout\<close> in
  \<open>proxy_checker.py\<close> and \<open>asyncio.TimeoutError\<close> in \<open>proxy_checker_cli.py\<close>;
  \<open>ProxyError\<close> is \<open>requests.exceptions.ProxyError\<close>; \<open>OtherException\<close> is any
  other subclass of \<open>Exception\<close> (DNS failure, connection refused, protocol error);
  \<open>NotAnException\<close> is a \<open>BaseException\<close> that is no \<open>Exception\<close>
  (\<open>KeyboardInterrupt\<close>, \<open>SystemExit\<close>), which no handler of the source catches.
  The string is \<open>str(e)\<close>.
\<close>

datatype exn =
    Timeout
  | ProxyError ustring
  | OtherException ustring
  | NotAnException ustring

text \<open>
  The environment of one probe: the two readings of \<open>time.time()\<close>, and the HTTP
  request, which returns the status code of the response or raises.
  \<open>requests_get test_url proxy_url timeout\<close> is \<open>requests.get\<close> of
  \<open>proxy_checker.py\<close>. For \<open>proxy_checker_cli.py\<close>,
  \<open>socks_get proxy_url test_url timeout\<close> is the request through a
  \<open>ProxyConnector\<close>, \<open>session_get test_url proxy_url timeout\<close> the request through
  a \<open>TCPConnector\<close> with \<open>proxy=proxy_url\<close>, and \<open>str_lower\<close> is the
  \<open>str.lower\<close> of the Python runtime.
\<close>

record world =
  time_start :: rat
  time_end :: rat
  requests_get :: "ustring \<Rightarrow> ustring \<Rightarrow> int \<Rightarrow> exn + int"
  str_lower :: "ustring \<Rightarrow> ustring"
  socks_get :: "ustring \<Rightarrow> ustring \<Rightarrow> int \<Rightarrow> exn + int"
  session_get :: "ustring \<Rightarrow> ustring \<Rightarrow> int \<Rightarrow> exn + int"

section \<open>check_proxy\<close>

text \<open>The two fixed messages of the source, as code points.\<close>

definition timeout_message :: ustring where
  "timeout_message = [36830, 25509, 36229, 26102]"

definition proxy_error_prefix :: ustring where
  "proxy_error_prefix = [20195, 29702, 38169, 35823, 58, 32]"

text \<open>
  \<open>ProxyChecker.check_proxy\<close> (\<open>proxy_checker.py\<close>). The result is \<open>Inr\<close> of the
  returned \<open>ProxyResult\<close>, or \<open>Inl\<close> of the exception that leaves the function.
\<close>

definition check_proxy ::
  "'a proxy_checker_scheme \<Rightarrow> world \<Rightarrow> ustring \<Rightarrow> ustring \<Rightarrow> exn + proxy_result" where
  "check_proxy self w prx proto =
    (let proxy_url = proto @ ustr ''://'' @ prx;
         start_time = time_start w;
         url = (if \<not> (startswith (test_url self) (ustr ''http://'')
                        \<or> startswith (test_url self) (ustr ''https://''))
                then ustr ''http://'' @ test_url self else test_url self)
     in case requests_get w url proxy_url (timeout self) of
          Inr status_code \<Rightarrow>
            (let lat = (time_end w - start_time) * 1000
             in if status_code = 200
                then Inr \<lparr>proxy = prx, protocol = proto, status = ustr ''success'',
                          latency = lat, error = []\<rparr>
                else Inr \<lparr>proxy = prx, protocol = proto, status = ustr ''failed'',
                          latency = lat, error = ustr ''HTTP '' @ str_int status_code\<rparr>)
        | Inl Timeout \<Rightarrow>
            Inr \<lparr>proxy = prx, protocol = proto, status = ustr ''timeout'',
                 latency = of_int (timeout self * 1000), error = timeout_message\<rparr>
        | Inl (ProxyError e) \<Rightarrow>
            Inr \<lparr>proxy = prx, protocol = proto, status = ustr ''failed'',
                 latency = 0, error = proxy_error_prefix @ take 50 e\<rparr>
        | Inl (OtherException e) \<Rightarrow>
            Inr \<lparr>proxy = prx, protocol = proto, status = ustr ''failed'',
                 latency = 0, error = take 50 e\<rparr>
        | Inl (NotAnException e) \<Rightarrow> Inl (NotAnException e))"

text \<open>
  \<open>ProxyCheckerCLI.check_proxy\<close> (\<open>proxy_checker_cli.py\<close>): the request goes
  through one of two connectors, and both branches classify the response alike. The only
  handlers are \<open>except asyncio.TimeoutError\<close> and \<open>except Exception\<close>.
\<close>

definition cli_check_proxy ::
  "'a proxy_checker_scheme \<Rightarrow> world \<Rightarrow> ustring \<Rightarrow> ustring \<Rightarrow> exn + proxy_result" where
  "cli_check_proxy self w prx proto =
    (let proxy_url = proto @ ustr ''://'' @ prx;
         start_time = time_start w;
         url = (if \<not> (startswith (test_url self) (ustr ''http://'')
                        \<or> startswith (test_url self) (ustr ''https://''))
                then ustr ''http://'' @ test_url self else test_url self);
         response =
           (if str_lower w proto = ustr ''socks5''
            then socks_get w proxy_url url (timeout self)
            else session_get w url proxy_url (timeout self))
     in case response of
          Inr status_code \<Rightarrow>
            (let lat = (time_end w - start_time) * 1000
             in if status_code = 200
                then Inr \<lparr>proxy = prx, protocol = proto, status = ustr ''success'',
                          latency = lat, error = []\<rparr>
                else Inr \<lparr>proxy = prx, protocol = proto, status = ustr ''failed'',
                          latency = lat, error = ustr ''HTTP '' @ str_int status_code\<rparr>)
        | Inl Timeout \<Rightarrow>
            Inr \<lparr>proxy = prx, protocol = proto, status = ustr ''timeout'',
                 latency = of_int (timeout self * 1000), error = timeout_message\<rparr>
        | Inl (ProxyError e) \<Rightarrow>
            Inr \<lparr>proxy = prx, protocol = proto, status = ustr ''failed'',
                 latency = 0, error = e\<rparr>
        | Inl (OtherException e) \<Rightarrow>
            Inr \<lparr>proxy = prx, protocol = proto, status = ustr ''failed'',
                 latency = 0, error = e\<rparr>
        | Inl (NotAnException e) \<Rightarrow> Inl (NotAnException e))"

text \<open>The URL a probe requests, and the request either checker makes.\<close>

definition probe_url :: "'a proxy_checker_scheme \<Rightarrow> ustring" where
  "probe_url self =
    (if \<not> (startswith (test_url self) (ustr ''http://'')
            \<or> startswith (test_url self) (ustr ''https://''))
     then ustr ''http://'' @ test_url self else test_url self)"

definition gui_request :: "'a proxy_checker_scheme \<Rightarrow> world \<Rightarrow> ustring \<Rightarrow> ustring \<Rightarrow> exn + int" where
  "gui_request self w prx proto =
     requests_get w (probe_url self) (proto @ ustr ''://'' @ prx) (timeout self)"

definition cli_request :: "'a proxy_checker_scheme \<Rightarrow> world \<Rightarrow> ustring \<Rightarrow> ustring \<Rightarrow> exn + int" where
  "cli_request self w prx proto =
     (if str_lower w proto = ustr ''socks5''
      then socks_get w (proto @ ustr ''://'' @ prx) (probe_url self) (timeout self)
      else session_get w (probe_url self) (proto @ ustr ''://'' @ prx) (timeout self))"

section \<open>get_statistics\<close>

text \<open>
  What Python raises in the arithmetic of \<open>get_statistics\<close> and in the creation of a
  thread pool or a semaphore.
\<close>

datatype py_error = ZeroDivisionError | ValueError

text \<open>True division \<open>a / b\<close>.\<close>

definition py_truediv :: "rat \<Rightarrow> rat \<Rightarrow> py_error + rat" where
  "py_truediv a b = (if b = 0 then Inl ZeroDivisionError else Inr (a / b))"

text \<open>\<open>min(xs, default=d)\<close> and \<open>max(xs, default=d)\<close>.\<close>

definition py_min_default :: "rat list \<Rightarrow> rat \<Rightarrow> rat" where
  "py_min_default xs d = (case xs of [] \<Rightarrow> d | x # ys \<Rightarrow> fold min ys x)"

definition py_max_default :: "rat list \<Rightarrow> rat \<Rightarrow> rat" where
  "py_max_default xs d = (case xs of [] \<Rightarrow> d | x # ys \<Rightarrow> fold max ys x)"

text \<open>
  The dictionary that \<open>get_statistics\<close> returns, with its seven keys; the key
  \<open>total\<close> is the field \<open>total_count\<close>.
\<close>

record statistics =
  total_count :: int
  success :: int
  failed :: int
  success_rate :: rat
  avg_latency :: rat
  min_latency :: rat
  max_latency :: rat

text \<open>
  \<open>get_statistics\<close> of both checkers. On an empty \<open>results\<close> it returns \<open>{}\<close>
  in \<open>proxy_checker.py\<close> and \<open>None\<close> in \<open>proxy_checker_cli.py\<close>, both
  \<open>None\<close> here; otherwise the two functions are the same text.
\<close>

definition get_statistics :: "'a proxy_checker_scheme \<Rightarrow> py_error + statistics option" where
  "get_statistics self =
    (if results self = [] then Inr None
     else
       let total = int (length (results self));
           successes = filter (\<lambda>r. status r = ustr ''success'') (results self);
           success_count = int (length successes)
       in case (if success_count > 0
                then py_truediv (sum_list (map latency successes)) (of_int success_count)
                else Inr 0) of
            Inl e \<Rightarrow> Inl e
          | Inr avg \<Rightarrow>
              let mn = py_min_default (map latency successes) 0;
                  mx = py_max_default (map latency successes) 0
              in case (if total > 0
                       then (case py_truediv (of_int success_count) (of_int total) of
                               Inl e \<Rightarrow> Inl e | Inr q \<Rightarrow> Inr (q * 100))
                       else Inr 0) of
                   Inl e \<Rightarrow> Inl e
                 | Inr rate \<Rightarrow>
                     Inr (Some \<lparr>total_count = total, success = success_count,
                                failed = total - success_count, success_rate = rate,
                                avg_latency = avg, min_latency = mn, max_latency = mx\<rparr>))"

text \<open>The results that count as successful.\<close>

definition successful :: "proxy_result list \<Rightarrow> proxy_result list" where
  "successful rs = filter (\<lambda>r. status r = ustr ''success'') rs"

section \<open>check_proxies_batch\<close>

text \<open>
  One probe of a batch: its position in the input list, the proxy and the protocol
  (\<open>check_with_semaphore(idx, proxy, protocol)\<close>; one future per pair in
  \<open>proxy_checker.py\<close>). The network answers each probe on its own: probe \<open>i\<close> runs
  in the environment \<open>ws i\<close>.
\<close>

type_synonym task = "nat \<times> ustring \<times> ustring"

definition probe :: "'a proxy_checker_scheme \<Rightarrow> (nat \<Rightarrow> world) \<Rightarrow> task \<Rightarrow> exn + proxy_result" where
  "probe self ws t = check_proxy self (ws (fst t)) (fst (snd t)) (snd (snd t))"

definition cli_probe :: "'a proxy_checker_scheme \<Rightarrow> (nat \<Rightarrow> world) \<Rightarrow> task \<Rightarrow> exn + proxy_result" where
  "cli_probe self ws t = cli_check_proxy self (ws (fst t)) (fst (snd t)) (snd (snd t))"

subsection \<open>proxy_checker.py: a thread pool\<close>

text \<open>
  The checker during \<open>ProxyChecker.check_proxies_batch\<close>, with the state of its
  \<open>ThreadPoolExecutor\<close>: the submitted probes that no worker has taken yet, in input
  order; the probes a worker is running; the results of the futures that are done and
  that the loop over \<open>as_completed\<close> has not yet appended to \<open>results\<close>.
\<close>

record pool = proxy_checker +
  max_workers :: nat
  queued :: "task list"
  working :: "task list"
  finished :: "proxy_result list"

text \<open>
  A step of the batch: a free worker takes the next submitted probe; a running probe
  returns its result (any running probe may be the next to return); the main thread takes a
  done future and appends its result (\<open>self.results.append(result)\<close>). A probe that
  raises gives no step: \<open>future.result()\<close> raises again in the main thread, and the
  batch does not return. The progress callback only reports and is left out.
\<close>

inductive pool_step :: "(nat \<Rightarrow> world) \<Rightarrow> pool \<Rightarrow> pool \<Rightarrow> bool" for ws where
  start: "queued s = t # q \<Longrightarrow> length (working s) < max_workers s \<Longrightarrow>
    pool_step ws s (s\<lparr>queued := q, working := working s @ [t]\<rparr>)"
| complete: "t \<in> set (working s) \<Longrightarrow> probe s ws t = Inr r \<Longrightarrow>
    pool_step ws s (s\<lparr>working := remove1 t (working s), finished := finished s @ [r]\<rparr>)"
| collect: "r \<in> set (finished s) \<Longrightarrow>
    pool_step ws s (s\<lparr>finished := remove1 r (finished s), results := results s @ [r]\<rparr>)"

text \<open>\<open>self.results = []\<close>, and every pair submitted in input order.\<close>

definition pool_init :: "'a proxy_checker_scheme \<Rightarrow> (ustring \<times> ustring) list \<Rightarrow> nat \<Rightarrow> pool" where
  "pool_init self proxies n =
     \<lparr>test_url = test_url self, timeout = timeout self, results = [],
      max_workers = n, queued = enumerate 0 proxies, working = [], finished = []\<rparr>"

definition pool_final :: "pool \<Rightarrow> bool" where
  "pool_final s = (queued s = [] \<and> working s = [] \<and> finished s = [])"

text \<open>
  \<open>check_proxies_batch self ws proxies concurrency out\<close>: the call can end with
  \<open>out\<close>. \<open>ThreadPoolExecutor(max_workers=concurrency)\<close> raises \<open>ValueError\<close>
  when \<open>concurrency \<le> 0\<close>; otherwise the call returns \<open>self.results\<close> once every
  future has been collected.
\<close>

inductive check_proxies_batch ::
  "'a proxy_checker_scheme \<Rightarrow> (nat \<Rightarrow> world) \<Rightarrow> (ustring \<times> ustring) list \<Rightarrow> int
     \<Rightarrow> py_error + proxy_result list \<Rightarrow> bool" where
  bad_workers: "c \<le> 0 \<Longrightarrow> check_proxies_batch self ws proxies c (Inl ValueError)"
| returns: "0 < c \<Longrightarrow> rtranclp (pool_step ws) (pool_init self proxies (nat c)) s \<Longrightarrow>
    pool_final s \<Longrightarrow> check_proxies_batch self ws proxies c (Inr (results s))"

subsection \<open>proxy_checker_cli.py: a semaphore\<close>

text \<open>
  The checker during \<open>ProxyCheckerCLI.check_proxies_batch\<close>: the tasks that wait for
  the semaphore, in input order, and the tasks that hold it.
\<close>

record sem = proxy_checker_cli +
  waiting :: "task list"
  holding :: "task list"

text \<open>
  A step: the first waiting task enters \<open>async with semaphore\<close> when fewer than
  \<open>concurrency\<close> tasks hold it; a task that holds it gets the result of its probe, appends
  it to \<open>results\<close> and leaves (the event loop runs nothing else between the return of
  \<open>check_proxy\<close> and the append). The printing of the progress is left out.
\<close>

inductive sem_step :: "(nat \<Rightarrow> world) \<Rightarrow> sem \<Rightarrow> sem \<Rightarrow> bool" for ws where
  acquire: "waiting s = t # q \<Longrightarrow> int (length (holding s)) < concurrency s \<Longrightarrow>
    sem_step ws s (s\<lparr>waiting := q, holding := holding s @ [t]\<rparr>)"
| release: "t \<in> set (holding s) \<Longrightarrow> cli_probe s ws t = Inr r \<Longrightarrow>
    sem_step ws s (s\<lparr>holding := remove1 t (holding s), results := results s @ [r]\<rparr>)"

definition sem_init :: "proxy_checker_cli \<Rightarrow> (ustring \<times> ustring) list \<Rightarrow> sem" where
  "sem_init self proxies =
     \<lparr>test_url = test_url self, timeout = timeout self, results = [],
      concurrency = concurrency self, verbose = verbose self,
      waiting = enumerate 0 proxies, holding = []\<rparr>"

definition sem_final :: "sem \<Rightarrow> bool" where
  "sem_final s = (waiting s = [] \<and> holding s = [])"

text \<open>
  \<open>asyncio.Semaphore(self.concurrency)\<close> raises \<open>ValueError\<close> when the value is
  negative; otherwise \<open>asyncio.gather\<close> returns when every task has returned, and the
  call returns \<open>self.results\<close>.
\<close>

inductive cli_check_proxies_batch ::
  "proxy_checker_cli \<Rightarrow> (nat \<Rightarrow> world) \<Rightarrow> (ustring \<times> ustring) list
     \<Rightarrow> py_error + proxy_result list \<Rightarrow> bool" where
  bad_value: "concurrency self < 0 \<Longrightarrow> cli_check_proxies_batch self ws proxies (Inl ValueError)"
| returns: "0 \<le> concurrency self \<Longrightarrow> rtranclp (sem_step ws) (sem_init self proxies) s \<Longrightarrow>
    sem_final s \<Longrightarrow> cli_check_proxies_batch self ws proxies (Inr (results s))"

section \<open>The stop button of the window\<close>

text \<open>
  \<open>ProxyCheckerGUI\<close>, as far as a running check goes: the flag \<open>is_checking\<close>,
  whether the start and the stop button are enabled (\<open>tk.NORMAL\<close>), and the checker
  with the batch that the worker thread runs.
\<close>

record gui =
  is_checking :: bool
  start_btn :: bool
  stop_btn :: bool
  job :: pool

text \<open>
  \<open>start_check\<close> with the parsed proxies and the values of the three entry fields: it
  does nothing on an empty list, and otherwise starts the thread that runs
  \<open>check_proxies_batch\<close>.
\<close>

definition start_check ::
  "gui \<Rightarrow> ustring \<Rightarrow> int \<Rightarrow> nat \<Rightarrow> (ustring \<times> ustring) list \<Rightarrow> gui" where
  "start_check g url_var timeout_var concurrency_var proxies =
     (if proxies = [] then g
      else g\<lparr>is_checking := True, start_btn := False, stop_btn := True,
             job := pool_init ((job g)\<lparr>test_url := url_var, timeout := timeout_var\<rparr>)
                      proxies concurrency_var\<rparr>)"

text \<open>\<open>stop_check\<close>: the flag and the two buttons, nothing else.\<close>

definition stop_check :: "gui \<Rightarrow> gui" where
  "stop_check g = g\<lparr>is_checking := False, start_btn := True, stop_btn := False\<rparr>"

text \<open>
  The window while a check runs: the worker thread makes a step of the batch, or the
  user presses the stop button.
\<close>

inductive gui_step :: "(nat \<Rightarrow> world) \<Rightarrow> gui \<Rightarrow> gui \<Rightarrow> bool" for ws where
  worker: "pool_step ws (job g) p \<Longrightarrow> gui_step ws g (g\<lparr>job := p\<rparr>)"
| stop: "stop_btn g \<Longrightarrow> gui_step ws g (stop_check g)"

section \<open>Invariants and measures of a batch\<close>

text \<open>What a run of the pool keeps: no probe is lost and none is made twice.\<close>

definition pool_inv :: "'a proxy_checker_scheme \<Rightarrow> (nat \<Rightarrow> world) \<Rightarrow> task list \<Rightarrow> pool \<Rightarrow> bool" where
  "pool_inv self ws tasks s =
     (test_url s = test_url self \<and> timeout s = timeout self
      \<and> set (queued s) \<union> set (working s) \<subseteq> set tasks
      \<and> image_mset Inr (mset (results s)) + image_mset Inr (mset (finished s))
          + image_mset (probe self ws) (mset (working s))
          + image_mset (probe self ws) (mset (queued s))
        = image_mset (probe self ws) (mset tasks))"

text \<open>What decreases with every step of the pool.\<close>

definition pool_measure :: "pool \<Rightarrow> nat" where
  "pool_measure s = 3 * length (queued s) + 2 * length (working s) + length (finished s)"

text \<open>The same for the semaphore.\<close>

definition sem_inv :: "'a proxy_checker_scheme \<Rightarrow> (nat \<Rightarrow> world) \<Rightarrow> task list \<Rightarrow> sem \<Rightarrow> bool" where
  "sem_inv self ws tasks s =
     (test_url s = test_url self \<and> timeout s = timeout self
      \<and> set (waiting s) \<union> set (holding s) \<subseteq> set tasks
      \<and> image_mset Inr (mset (results s))
          + image_mset (cli_probe self ws) (mset (holding s))
          + image_mset (cli_probe self ws) (mset (waiting s))
        = image_mset (cli_probe self ws) (mset tasks))"

definition sem_measure :: "sem \<Rightarrow> nat" where
  "sem_measure s = 2 * length (waiting s) + length (holding s)"

section \<open>Strings and regular expressions of parse_proxies\<close>

text \<open>
  The characters that \<open>str.strip()\<close> removes (those for which \<open>str.isspace\<close>
  holds), and \<open>str.strip()\<close>.
\<close>

definition is_space :: "nat \<Rightarrow> bool" where
  "is_space c = (c \<in> set [9, 10, 11, 12, 13, 28, 29, 30, 31, 32, 133, 160, 5760,
                           8232, 8233, 8239, 8287, 12288] \<or> (8192 \<le> c \<and> c \<le> 8202))"

definition py_strip :: "ustring \<Rightarrow> ustring" where
  "py_strip s = rev (dropWhile is_space (rev (dropWhile is_space s)))"

text \<open>\<open>s.split('\n')\<close>: the pieces between the line feeds, at least one.\<close>

fun split_nl :: "ustring \<Rightarrow> ustring list" where
  "split_nl [] = [[]]"
| "split_nl (c # cs) =
     (if c = 10 then [] # split_nl cs
      else (case split_nl cs of l # ls \<Rightarrow> (c # l) # ls | [] \<Rightarrow> [[c]]))"

text \<open>
  The class \<open>\d\<close> of a \<open>str\<close> pattern is the Unicode category Nd (decimal digits):
  the ten characters from each of these code points on (the table of Unicode 14, which
  CPython 3.11 carries; the ASCII digits start at 48).
\<close>

definition digit_starts :: "nat list" where
  "digit_starts =
     [48, 1632, 1776, 1984, 2406, 2534, 2662, 2790, 2918, 3046, 3174, 3302, 3430, 3558,
      3664, 3792, 3872, 4160, 4240, 6112, 6160, 6470, 6608, 6784, 6800, 6992, 7088, 7232,
      7248, 42528, 43216, 43264, 43472, 43504, 43600, 44016, 65296, 66720, 68912, 69734,
      69872, 69942, 70096, 70384, 70736, 70864, 71248, 71360, 71472, 71904, 72016, 72784,
      73040, 73120, 92768, 92864, 93008, 120782, 120792, 120802, 120812, 120822, 123200,
      123632, 125264, 130032]"

definition is_digit :: "nat \<Rightarrow> bool" where
  "is_digit c = list_ex (\<lambda>s. s \<le> c \<and> c < s + 10) digit_starts"

text \<open>
  The regular expressions of the source use literal text, alternation, an optional
  group, capturing groups and \<open>+\<close> on a character class. A class is \<open>.\<close> (any
  character but the line feed), \<open>[...]\<close> or \<open>[^...]\<close> over single characters and
  \<open>\d\<close>.
\<close>

datatype citem = Digit | Ch nat

datatype cclass = Dot | OneOf "citem list" | NoneOf "citem list"

fun imatch :: "citem \<Rightarrow> nat \<Rightarrow> bool" where
  "imatch Digit c = is_digit c"
| "imatch (Ch x) c = (c = x)"

fun cmatch :: "cclass \<Rightarrow> nat \<Rightarrow> bool" where
  "cmatch Dot c = (c \<noteq> 10)"
| "cmatch (OneOf xs) c = list_ex (\<lambda>i. imatch i c) xs"
| "cmatch (NoneOf xs) c = (\<not> list_ex (\<lambda>i. imatch i c) xs)"

datatype re =
    Lit ustring
  | Plus cclass
  | Seq re re
  | Alt re re
  | Opt re
  | Group nat re

text \<open>
  What is left of \<open>s\<close> after one or more characters of a class at its start, the
  longest repetition first.
\<close>

fun plus_rests :: "(nat \<Rightarrow> bool) \<Rightarrow> ustring \<Rightarrow> ustring list" where
  "plus_rests P [] = []"
| "plus_rests P (c # cs) = (if P c then plus_rests P cs @ [cs] else [])"

text \<open>
  The backtracking matcher of \<open>re\<close>: \<open>rmatch r s g\<close> lists the ways in which \<open>r\<close>
  matches at the start of \<open>s\<close>, in the order in which the matcher tries them, each
  with the rest of the string and the groups captured so far (after those in \<open>g\<close>).
  \<open>+\<close> is greedy: the longest repetition first. An alternation tries its branches from
  the left, an optional part is tried before it is left out.
\<close>

type_synonym groups = "(nat \<times> ustring) list"

fun rmatch :: "re \<Rightarrow> ustring \<Rightarrow> groups \<Rightarrow> (ustring \<times> groups) list" where
  "rmatch (Lit l) s g = (if startswith s l then [(drop (length l) s, g)] else [])"
| "rmatch (Plus c) s g = map (\<lambda>s'. (s', g)) (plus_rests (cmatch c) s)"
| "rmatch (Seq a b) s g = concat (map (\<lambda>(s', g'). rmatch b s' g') (rmatch a s g))"
| "rmatch (Alt a b) s g = rmatch a s g @ rmatch b s g"
| "rmatch (Opt a) s g = rmatch a s g @ [(s, g)]"
| "rmatch (Group n a) s g =
     map (\<lambda>(s', g'). (s', (n, take (length s - length s') s) # g')) (rmatch a s g)"

text \<open>
  \<open>re.match(r, s)\<close>: the first way, if there is one; \<open>m.group(n)\<close> is \<open>None\<close>
  for a group that took no part in the match.
\<close>

definition re_match :: "re \<Rightarrow> ustring \<Rightarrow> groups option" where
  "re_match r s = (case rmatch r s [] of [] \<Rightarrow> None | (rest, g) # _ \<Rightarrow> Some g)"

definition group :: "groups \<Rightarrow> nat \<Rightarrow> ustring option" where
  "group m n = map_of m n"

text \<open>
  The three patterns: \<open>(http|https|socks5)://([^@]+@)?(.+)\<close>,
  \<open>[^@]+@[\d.]+:\d+\<close> and \<open>[\d.]+:\d+\<close>.
\<close>

definition re_scheme :: re where
  "re_scheme =
     Seq (Group 1 (Alt (Lit (ustr ''http'')) (Alt (Lit (ustr ''https'')) (Lit (ustr ''socks5'')))))
    (Seq (Lit (ustr ''://''))
    (Seq (Opt (Group 2 (Seq (Plus (NoneOf [Ch 64])) (Lit (ustr ''@'')))))
         (Group 3 (Plus Dot))))"

definition re_auth :: re where
  "re_auth =
     Seq (Plus (NoneOf [Ch 64]))
    (Seq (Lit (ustr ''@''))
    (Seq (Plus (OneOf [Digit, Ch 46]))
    (Seq (Lit (ustr '':''))
         (Plus (OneOf [Digit])))))"

definition re_bare :: re where
  "re_bare =
     Seq (Plus (OneOf [Digit, Ch 46]))
    (Seq (Lit (ustr '':''))
         (Plus (OneOf [Digit])))"

section \<open>parse_proxies\<close>

text \<open>
  The body of the loop of \<open>parse_proxies\<close> (the same text in both files) for one
  line: the pairs it appends. Groups 1 and 3 of the first pattern are not optional, so
  \<open>m.group(1)\<close> and \<open>m.group(3)\<close> are strings whenever the pattern matches; were one
  of them \<open>None\<close>, the concatenation \<open>auth + proxy\<close> could not be a string, which the
  model gives as \<open>TypeError\<close>.
\<close>

datatype parse_error = TypeError

definition parse_line :: "ustring \<Rightarrow> parse_error + (ustring \<times> ustring) list" where
  "parse_line raw =
    (let line = py_strip raw
     in if line = [] \<or> startswith line (ustr ''#'') then Inr []
        else case re_match re_scheme line of
               Some m \<Rightarrow>
                 (let auth = (case group m 2 of None \<Rightarrow> [] | Some a \<Rightarrow> a)
                  in case (group m 1, group m 3) of
                       (Some proto, Some prx) \<Rightarrow> Inr [(auth @ prx, proto)]
                     | _ \<Rightarrow> Inl TypeError)
             | None \<Rightarrow>
                 if re_match re_auth line \<noteq> None then Inr [(line, ustr ''http'')]
                 else if re_match re_bare line \<noteq> None then Inr [(line, ustr ''http'')]
                 else Inr [])"

fun parse_lines ::
  "ustring list \<Rightarrow> (ustring \<times> ustring) list \<Rightarrow> parse_error + (ustring \<times> ustring) list" where
  "parse_lines [] proxies = Inr proxies"
| "parse_lines (line # lines) proxies =
     (case parse_line line of
        Inl e \<Rightarrow> Inl e
      | Inr ps \<Rightarrow> parse_lines lines (proxies @ ps))"

definition parse_proxies :: "ustring \<Rightarrow> parse_error + (ustring \<times> ustring) list" where
  "parse_proxies text = parse_lines (split_nl (py_strip text)) []"

section \<open>The input grammar in words\<close>

text \<open>
  The strings that a pattern matches as a whole, and "a prefix of the line matches the
  pattern".
\<close>

fun lang :: "re \<Rightarrow> ustring set" where
  "lang (Lit l) = {l}"
| "lang (Plus c) = {w. w \<noteq> [] \<and> (\<forall>x \<in> set w. cmatch c x)}"
| "lang (Seq a b) = {u @ v | u v. u \<in> lang a \<and> v \<in> lang b}"
| "lang (Alt a b) = lang a \<union> lang b"
| "lang (Opt a) = insert [] (lang a)"
| "lang (Group n a) = lang a"

definition matches_prefix :: "re \<Rightarrow> ustring \<Rightarrow> bool" where
  "matches_prefix r s = (\<exists>p \<in> lang r. prefix p s)"

text \<open>
  Form 1, \<open>protocol://endpoint\<close> with a protocol among \<open>http\<close>, \<open>https\<close>,
  \<open>socks5\<close> and an endpoint that is not empty: the protocol and the endpoint.
\<close>

definition scheme_split :: "ustring \<Rightarrow> (ustring \<times> ustring) option" where
  "scheme_split line =
    (if startswith line (ustr ''http://'') \<and> 7 < length line
       then Some (ustr ''http'', drop 7 line)
     else if startswith line (ustr ''https://'') \<and> 8 < length line
       then Some (ustr ''https'', drop 8 line)
     else if startswith line (ustr ''socks5://'') \<and> 9 < length line
       then Some (ustr ''socks5'', drop 9 line)
     else None)"

text \<open>
  The classification of one line in the words of the input grammar: blank lines and
  comments give nothing; form 1 gives the endpoint and the protocol of the prefix; forms
  2 and 3 give the line with the protocol \<open>http\<close>; any other line gives nothing.
\<close>

definition classify_spec :: "ustring \<Rightarrow> (ustring \<times> ustring) list" where
  "classify_spec raw =
    (let line = py_strip raw
     in if line = [] \<or> startswith line (ustr ''#'') then []
        else case scheme_split line of
               Some (proto, endpoint) \<Rightarrow> [(endpoint, proto)]
             | None \<Rightarrow>
                 if matches_prefix re_auth line then [(line, ustr ''http'')]
                 else if matches_prefix re_bare line then [(line, ustr ''http'')]
                 else [])"

text \<open>The part of the first pattern after \<open>://\<close>.\<close>

definition re_tail :: re where
  "re_tail = Seq (Opt (Group 2 (Seq (Plus (NoneOf [Ch 64])) (Lit (ustr ''@''))))) (Group 3 (Plus Dot))"

text \<open>
  A way of matching that leaves nothing of the line and whose groups 2 and 3 together
  are the whole of \<open>rest\<close>.
\<close>

definition whole_endpoint :: "groups \<Rightarrow> ustring \<Rightarrow> ustring \<times> groups \<Rightarrow> bool" where
  "whole_endpoint g rest sm =
     (fst sm = [] \<and> group (snd sm) 1 = group g 1
      \<and> (\<exists>x. group (snd sm) 3 = Some x
            \<and> (case group (snd sm) 2 of None \<Rightarrow> [] | Some a \<Rightarrow> a) @ x = rest))"

text \<open>The three protocols of form 1.\<close>

definition protos :: "ustring set" where
  "protos = {ustr ''http'', ustr ''https'', ustr ''socks5''}"

text \<open>
  A way of matching the first pattern on a line \<open>protocol://rest\<close> that gives the
  protocol as group 1 and the whole of \<open>rest\<close> as groups 2 and 3.
\<close>

definition scheme_found :: "ustring \<Rightarrow> ustring \<times> groups \<Rightarrow> bool" where
  "scheme_found line sm =
     (\<exists>p \<in> protos. \<exists>rest. line = p @ ustr ''://'' @ rest \<and> rest \<noteq> []
        \<and> whole_endpoint [(1, p)] rest sm)"

section \<open>Concrete inputs\<close>

text \<open>
  A checker of each kind, a probe environment that answers every request with a given
  outcome and measures a quarter of a second, and a connection error message of 69
  characters.
\<close>

definition chk0 :: proxy_checker where
  "chk0 = \<lparr>test_url = ustr ''www.google.com'', timeout = 2, results = []\<rparr>"

definition cli0 :: proxy_checker_cli where
  "cli0 = \<lparr>test_url = ustr ''http://www.google.com'', timeout = 2, results = [],
           concurrency = 10, verbose = False\<rparr>"

definition world_of :: "(exn + int) \<Rightarrow> world" where
  "world_of out = \<lparr>time_start = 100, time_end = 100 + 1 / 4,
     requests_get = (\<lambda>url purl t. out), str_lower = (\<lambda>s. s),
     socks_get = (\<lambda>purl url t. out), session_get = (\<lambda>url purl t. out)\<rparr>"

definition refused_message :: ustring where
  "refused_message = ustr ''Cannot connect to host 10.0.0.1:8080 ssl:default [Connection refused]''"

definition result_of :: "ustring \<Rightarrow> rat \<Rightarrow> proxy_result" where
  "result_of st lat = \<lparr>proxy = ustr ''10.0.0.1:8080'', protocol = ustr ''http'',
     status = st, latency = lat, error = []\<rparr>"

definition seven_of_ten :: "proxy_result list" where
  "seven_of_ten =
     map (result_of (ustr ''success'')) [120, 80, 95, 300, 210, 150, 165]
     @ [result_of (ustr ''failed'') 0, result_of (ustr ''timeout'') 2000,
        result_of (ustr ''failed'') 40]"

text \<open>
  Two proxies; the network answers the first probe with status 200 and lets the second
  one time out. States of the pool and of the semaphore over them.
\<close>

definition two_proxies :: "(ustring \<times> ustring) list" where
  "two_proxies = [(ustr ''10.0.0.1:8080'', ustr ''http''), (ustr ''10.0.0.2:1080'', ustr ''socks5'')]"

definition ws0 :: "nat \<Rightarrow> world" where
  "ws0 i = (if i = 0 then world_of (Inr 200) else world_of (Inl Timeout))"

definition res_a :: proxy_result where
  "res_a = \<lparr>proxy = ustr ''10.0.0.1:8080'', protocol = ustr ''http'',
            status = ustr ''success'', latency = 250, error = []\<rparr>"

definition res_b :: proxy_result where
  "res_b = \<lparr>proxy = ustr ''10.0.0.2:1080'', protocol = ustr ''socks5'',
            status = ustr ''timeout'', latency = 2000, error = timeout_message\<rparr>"

definition pool0 :: "nat \<Rightarrow> task list \<Rightarrow> task list \<Rightarrow> proxy_result list \<Rightarrow> proxy_result list \<Rightarrow> pool" where
  "pool0 n q w f r = \<lparr>test_url = ustr ''www.google.com'', timeout = 2, results = r,
     max_workers = n, queued = q, working = w, finished = f\<rparr>"

definition sem0 :: "task list \<Rightarrow> task list \<Rightarrow> proxy_result list \<Rightarrow> sem" where
  "sem0 q h r = \<lparr>test_url = ustr ''http://www.google.com'', timeout = 2, results = r,
     concurrency = 10, verbose = False, waiting = q, holding = h\<rparr>"

definition gui0 :: "bool \<Rightarrow> pool \<Rightarrow> gui" where
  "gui0 chk p = \<lparr>is_checking = chk, start_btn = \<not> chk, stop_btn = chk, job = p\<rparr>"

text \<open>
  A proxy list of four lines (the three examples of the input grammar and a line of no
  form), and three single lines that go on after the part the patterns look at.
\<close>

definition proxy_text :: ustring where
  "proxy_text = ustr ''socks5://user:pw@10.0.0.1:1080'' @ [10] @ ustr ''10.0.0.1:8080'' @ [10]
     @ ustr ''# note'' @ [10] @ ustr ''not a proxy'' @ [10]"

definition line_scheme :: ustring where
  "line_scheme = ustr ''http://proxy.example:3128 (office)''"

definition line_auth :: ustring where
  "line_auth = ustr ''user:pw@10.0.0.1:8080/extra''"

definition line_bare :: ustring where
  "line_bare = ustr ''10.0.0.1:8080xyz''"

(*PROPERTIES*)
section \<open>Properties of check_proxy\<close>

lemma str_int_404: "str_int 404 = ustr ''404''"
  by (simp add: str_int_def str_nat.simps ustr_def)

text \<open>
  C5. When the request returns an HTTP response, both checkers return a result and raise
  nothing: with status code 200 the result has status \<open>success\<close>, the measured
  elapsed time \<open>(time_end - time_start) * 1000\<close> as latency and an empty error; with
  any other status code it has status \<open>failed\<close>, the same measured latency and the
  error \<open>HTTP\<close> followed by the status code in decimal (\<open>HTTP 404\<close> for 404).
\<close>

theorem check_proxy_response:
  "(gui_request self w prx proto = Inr c \<longrightarrow>
      check_proxy self w prx proto =
        Inr \<lparr>proxy = prx, protocol = proto,
             status = (if c = 200 then ustr ''success'' else ustr ''failed''),
             latency = (time_end w - time_start w) * 1000,
             error = (if c = 200 then [] else ustr ''HTTP '' @ str_int c)\<rparr>)
   \<and> (cli_request self' w' prx' proto' = Inr c' \<longrightarrow>
      cli_check_proxy self' w' prx' proto' =
        Inr \<lparr>proxy = prx', protocol = proto',
             status = (if c' = 200 then ustr ''success'' else ustr ''failed''),
             latency = (time_end w' - time_start w') * 1000,
             error = (if c' = 200 then [] else ustr ''HTTP '' @ str_int c')\<rparr>)"
  by (simp add: check_proxy_def cli_check_proxy_def gui_request_def cli_request_def
      probe_url_def Let_def)

theorem check_proxy_response_witness:
  "gui_request chk0 (world_of (Inr 404)) (ustr ''10.0.0.1:8080'') (ustr ''http'') = Inr 404
   \<and> check_proxy chk0 (world_of (Inr 404)) (ustr ''10.0.0.1:8080'') (ustr ''http'') =
        Inr \<lparr>proxy = ustr ''10.0.0.1:8080'', protocol = ustr ''http'',
             status = ustr ''failed'', latency = 250, error = ustr ''HTTP 404''\<rparr>
   \<and> cli_request cli0 (world_of (Inr 200)) (ustr ''10.0.0.1:1080'') (ustr ''socks5'') = Inr 200
   \<and> cli_check_proxy cli0 (world_of (Inr 200)) (ustr ''10.0.0.1:1080'') (ustr ''socks5'') =
        Inr \<lparr>proxy = ustr ''10.0.0.1:1080'', protocol = ustr ''socks5'',
             status = ustr ''success'', latency = 250, error = []\<rparr>"
  using check_proxy_response [of chk0 "world_of (Inr 404)" "ustr ''10.0.0.1:8080''" "ustr ''http''"
      404 cli0 "world_of (Inr 200)" "ustr ''10.0.0.1:1080''" "ustr ''socks5''" 200]
  by (simp add: gui_request_def cli_request_def world_of_def str_int_404 ustr_def)

text \<open>
  C4. When the request raises the timeout exception, both checkers return a result with
  status \<open>timeout\<close>, latency \<open>timeout * 1000\<close> (the configured bound, no clock
  is read) and the fixed message \<open>timeout_message\<close>; with a timeout of 2 seconds the
  latency is 2000.
\<close>

theorem check_proxy_timeout:
  "(gui_request self w prx proto = Inl Timeout \<longrightarrow>
      check_proxy self w prx proto =
        Inr \<lparr>proxy = prx, protocol = proto, status = ustr ''timeout'',
             latency = of_int (timeout self) * 1000, error = timeout_message\<rparr>)
   \<and> (cli_request self' w' prx' proto' = Inl Timeout \<longrightarrow>
      cli_check_proxy self' w' prx' proto' =
        Inr \<lparr>proxy = prx', protocol = proto', status = ustr ''timeout'',
             latency = of_int (timeout self') * 1000, error = timeout_message\<rparr>)"
  by (simp add: check_proxy_def cli_check_proxy_def gui_request_def cli_request_def
      probe_url_def Let_def)

theorem check_proxy_timeout_witness:
  "gui_request chk0 (world_of (Inl Timeout)) (ustr ''10.0.0.1:8080'') (ustr ''http'') = Inl Timeout
   \<and> check_proxy chk0 (world_of (Inl Timeout)) (ustr ''10.0.0.1:8080'') (ustr ''http'') =
        Inr \<lparr>proxy = ustr ''10.0.0.1:8080'', protocol = ustr ''http'',
             status = ustr ''timeout'', latency = 2000, error = timeout_message\<rparr>
   \<and> cli_request cli0 (world_of (Inl Timeout)) (ustr ''10.0.0.1:8080'') (ustr ''http'') = Inl Timeout
   \<and> cli_check_proxy cli0 (world_of (Inl Timeout)) (ustr ''10.0.0.1:8080'') (ustr ''http'') =
        Inr \<lparr>proxy = ustr ''10.0.0.1:8080'', protocol = ustr ''http'',
             status = ustr ''timeout'', latency = 2000, error = timeout_message\<rparr>"
  using check_proxy_timeout [of chk0 "world_of (Inl Timeout)" "ustr ''10.0.0.1:8080''"
      "ustr ''http''" cli0 "world_of (Inl Timeout)" "ustr ''10.0.0.1:8080''" "ustr ''http''"]
  by (simp add: gui_request_def cli_request_def world_of_def chk0_def cli0_def ustr_def)

text \<open>
  C3, as stated, fails. In \<open>proxy_checker_cli.py\<close> a connection error with a message
  of 69 characters gives an error of 69 characters; in \<open>proxy_checker.py\<close> a
  \<open>ProxyError\<close> with that message gives the fixed prefix followed by the first 50
  characters, 56 characters that are not the truncated message.
\<close>

theorem check_proxy_error_not_truncated:
  "cli_check_proxy cli0 (world_of (Inl (OtherException refused_message)))
       (ustr ''10.0.0.1:8080'') (ustr ''http'') =
     Inr \<lparr>proxy = ustr ''10.0.0.1:8080'', protocol = ustr ''http'', status = ustr ''failed'',
          latency = 0, error = refused_message\<rparr>
   \<and> length refused_message = 69
   \<and> check_proxy chk0 (world_of (Inl (ProxyError refused_message)))
       (ustr ''10.0.0.1:8080'') (ustr ''http'') =
     Inr \<lparr>proxy = ustr ''10.0.0.1:8080'', protocol = ustr ''http'', status = ustr ''failed'',
          latency = 0,
          error = proxy_error_prefix @ ustr ''Cannot connect to host 10.0.0.1:8080 ssl:default [''\<rparr>
   \<and> length (proxy_error_prefix @ ustr ''Cannot connect to host 10.0.0.1:8080 ssl:default ['') = 56
   \<and> proxy_error_prefix @ ustr ''Cannot connect to host 10.0.0.1:8080 ssl:default [''
       \<noteq> take 50 refused_message"
  by (simp add: check_proxy_def cli_check_proxy_def world_of_def refused_message_def
      proxy_error_prefix_def ustr_def Let_def)

text \<open>
  C3, amended. A failure that is an \<open>Exception\<close> and no timeout never leaves
  \<open>check_proxy\<close>: the result has status \<open>failed\<close> and latency 0. In
  \<open>proxy_checker.py\<close> the error is the message cut to 50 characters, after the fixed
  prefix \<open>proxy_error_prefix\<close> when the failure is a \<open>ProxyError\<close> (at most 56
  characters in all); in \<open>proxy_checker_cli.py\<close> the error is the whole message.
\<close>

theorem check_proxy_failure_contained:
  "(gui_request self1 w1 prx1 proto1 = Inl (ProxyError m1) \<longrightarrow>
      check_proxy self1 w1 prx1 proto1 =
        Inr \<lparr>proxy = prx1, protocol = proto1, status = ustr ''failed'', latency = 0,
             error = proxy_error_prefix @ take 50 m1\<rparr>
      \<and> length (proxy_error_prefix @ take 50 m1) \<le> 56)
   \<and> (gui_request self2 w2 prx2 proto2 = Inl (OtherException m2) \<longrightarrow>
      check_proxy self2 w2 prx2 proto2 =
        Inr \<lparr>proxy = prx2, protocol = proto2, status = ustr ''failed'', latency = 0,
             error = take 50 m2\<rparr>
      \<and> length (take 50 m2) \<le> 50)
   \<and> (cli_request self3 w3 prx3 proto3 = Inl x3 \<and> (x3 = ProxyError m3 \<or> x3 = OtherException m3) \<longrightarrow>
      cli_check_proxy self3 w3 prx3 proto3 =
        Inr \<lparr>proxy = prx3, protocol = proto3, status = ustr ''failed'', latency = 0,
             error = m3\<rparr>)"
  by (auto simp add: check_proxy_def cli_check_proxy_def gui_request_def cli_request_def
      probe_url_def Let_def proxy_error_prefix_def)

theorem check_proxy_failure_contained_witness:
  "gui_request chk0 (world_of (Inl (ProxyError refused_message)))
       (ustr ''10.0.0.1:8080'') (ustr ''http'') = Inl (ProxyError refused_message)
   \<and> check_proxy chk0 (world_of (Inl (ProxyError refused_message)))
       (ustr ''10.0.0.1:8080'') (ustr ''http'') =
        Inr \<lparr>proxy = ustr ''10.0.0.1:8080'', protocol = ustr ''http'', status = ustr ''failed'',
             latency = 0, error = proxy_error_prefix @ take 50 refused_message\<rparr>
   \<and> gui_request chk0 (world_of (Inl (OtherException refused_message)))
       (ustr ''10.0.0.1:8080'') (ustr ''http'') = Inl (OtherException refused_message)
   \<and> check_proxy chk0 (world_of (Inl (OtherException refused_message)))
       (ustr ''10.0.0.1:8080'') (ustr ''http'') =
        Inr \<lparr>proxy = ustr ''10.0.0.1:8080'', protocol = ustr ''http'', status = ustr ''failed'',
             latency = 0, error = take 50 refused_message\<rparr>
   \<and> cli_request cli0 (world_of (Inl (OtherException refused_message)))
       (ustr ''10.0.0.1:8080'') (ustr ''http'') = Inl (OtherException refused_message)
   \<and> cli_check_proxy cli0 (world_of (Inl (OtherException refused_message)))
       (ustr ''10.0.0.1:8080'') (ustr ''http'') =
        Inr \<lparr>proxy = ustr ''10.0.0.1:8080'', protocol = ustr ''http'', status = ustr ''failed'',
             latency = 0, error = refused_message\<rparr>"
  using check_proxy_failure_contained [of
      chk0 "world_of (Inl (ProxyError refused_message))" "ustr ''10.0.0.1:8080''" "ustr ''http''"
      refused_message
      chk0 "world_of (Inl (OtherException refused_message))" "ustr ''10.0.0.1:8080''" "ustr ''http''"
      refused_message
      cli0 "world_of (Inl (OtherException refused_message))" "ustr ''10.0.0.1:8080''" "ustr ''http''"
      "OtherException refused_message" refused_message]
  by (simp add: gui_request_def cli_request_def world_of_def ustr_def)

section \<open>Properties of get_statistics\<close>


lemma fold_min_Min: "fold min ys (x::rat) = Min (set (x # ys))"
  by (rule Min.set_eq_fold [symmetric])

lemma fold_max_Max: "fold max ys (x::rat) = Max (set (x # ys))"
  by (rule Max.set_eq_fold [symmetric])

lemma py_min_default_eq:
  "py_min_default xs d = (if xs = [] then d else Min (set xs))"
  by (cases xs) (simp_all add: py_min_default_def fold_min_Min del: set_simps)

lemma py_max_default_eq:
  "py_max_default xs d = (if xs = [] then d else Max (set xs))"
  by (cases xs) (simp_all add: py_max_default_def fold_max_Max del: set_simps)

lemma count_not_successful:
  "int (length rs) - int (length (successful rs)) =
     int (length (filter (\<lambda>r. status r \<noteq> ustr ''success'') rs))"
  using sum_length_filter_compl [of "\<lambda>r. status r = ustr ''success''" rs]
  by (simp add: successful_def)

text \<open>
  C6. On a non-empty \<open>results\<close>, \<open>get_statistics\<close> raises nothing and returns:
  the number of results; the number of successful ones; their difference as \<open>failed\<close>,
  which counts every result whose status is not \<open>success\<close>, timeouts included;
  \<open>success_rate = success / total * 100\<close>; and the average, the minimum and the maximum
  of the latencies of the successful results only, all three 0 when none is successful.
  Seven successes among ten results give the rate 70.
\<close>

theorem get_statistics_nonempty:
  assumes "results self \<noteq> []"
  shows "get_statistics self =
    Inr (Some \<lparr>total_count = int (length (results self)),
               success = int (length (successful (results self))),
               failed = int (length (results self)) - int (length (successful (results self))),
               success_rate =
                 of_nat (length (successful (results self))) / of_nat (length (results self)) * 100,
               avg_latency =
                 (if successful (results self) = [] then 0
                  else sum_list (map latency (successful (results self)))
                         / of_nat (length (successful (results self)))),
               min_latency =
                 (if successful (results self) = [] then 0
                  else Min (latency ` set (successful (results self)))),
               max_latency =
                 (if successful (results self) = [] then 0
                  else Max (latency ` set (successful (results self))))\<rparr>)
    \<and> int (length (results self)) - int (length (successful (results self))) =
        int (length (filter (\<lambda>r. status r \<noteq> ustr ''success'') (results self)))"
proof -
  have len: "length (results self) \<noteq> 0" using assms by simp
  have "get_statistics self =
    Inr (Some \<lparr>total_count = int (length (results self)),
               success = int (length (successful (results self))),
               failed = int (length (results self)) - int (length (successful (results self))),
               success_rate =
                 of_nat (length (successful (results self))) / of_nat (length (results self)) * 100,
               avg_latency =
                 (if successful (results self) = [] then 0
                  else sum_list (map latency (successful (results self)))
                         / of_nat (length (successful (results self)))),
               min_latency =
                 (if successful (results self) = [] then 0
                  else Min (latency ` set (successful (results self)))),
               max_latency =
                 (if successful (results self) = [] then 0
                  else Max (latency ` set (successful (results self))))\<rparr>)"
    using assms len
    by (simp add: get_statistics_def Let_def py_truediv_def py_min_default_eq
        py_max_default_eq successful_def [symmetric])
  then show ?thesis
    using count_not_successful [of "results self"] by simp
qed

theorem get_statistics_nonempty_witness:
  "results (chk0\<lparr>results := seven_of_ten\<rparr>) \<noteq> []
   \<and> get_statistics (chk0\<lparr>results := seven_of_ten\<rparr>) =
       Inr (Some \<lparr>total_count = 10, success = 7, failed = 3, success_rate = 70,
                  avg_latency = 160, min_latency = 80, max_latency = 300\<rparr>)"
proof -
  have ne: "results (chk0\<lparr>results := seven_of_ten\<rparr>) \<noteq> []"
    by (simp add: seven_of_ten_def)
  have succ: "successful seven_of_ten =
      map (result_of (ustr ''success'')) [120, 80, 95, 300, 210, 150, 165]"
    by (simp add: successful_def seven_of_ten_def result_of_def ustr_def)
  have lats: "latency ` set (successful seven_of_ten) = set [120, 80, 95, 300, 210, 150, 165]"
    by (simp add: succ result_of_def)
  have mn: "Min (latency ` set (successful seven_of_ten)) = 80"
    unfolding lats Min.set_eq_fold by simp
  have mx: "Max (latency ` set (successful seven_of_ten)) = 300"
    unfolding lats Max.set_eq_fold by simp
  have sm: "sum_list (map latency (successful seven_of_ten)) = 1120"
    by (simp add: succ result_of_def)
  have l1: "length (successful seven_of_ten) = 7" by (simp add: succ)
  have l2: "length seven_of_ten = 10" by (simp add: seven_of_ten_def)
  have nn: "successful seven_of_ten \<noteq> []" by (simp add: succ)
  show ?thesis
    using ne get_statistics_nonempty [OF ne]
    by (simp add: mn mx sm l1 l2 nn)
qed

text \<open>
  C2, as stated, fails: on an empty \<open>results\<close> both checkers return no statistics
  at all, so there is no \<open>total\<close> of 0 and no rate or latency of 0 to read.
\<close>


theorem get_statistics_empty_has_no_total:
  "get_statistics (chk0\<lparr>results := []\<rparr>) = Inr None
   \<and> get_statistics (cli0\<lparr>results := []\<rparr>) = Inr None
   \<and> get_statistics (chk0\<lparr>results := []\<rparr>) \<noteq>
       Inr (Some \<lparr>total_count = 0, success = 0, failed = 0, success_rate = 0,
                  avg_latency = 0, min_latency = 0, max_latency = 0\<rparr>)"
  by (simp add: get_statistics_def)

text \<open>
  C2, amended. \<open>get_statistics\<close> never raises, a division error included, and it
  returns no statistics exactly when \<open>results\<close> is empty.
\<close>

theorem get_statistics_empty:
  "get_statistics self \<noteq> Inl e \<and> (get_statistics self = Inr None) = (results self = [])"
  by (simp add: get_statistics_def Let_def py_truediv_def)

section \<open>Properties of check_proxies_batch\<close>

lemma gui_request_fields:
  "test_url s = test_url s' \<Longrightarrow> timeout s = timeout s' \<Longrightarrow>
     gui_request s w p h = gui_request s' w p h"
  by (simp add: gui_request_def probe_url_def)

lemma cli_request_fields:
  "test_url s = test_url s' \<Longrightarrow> timeout s = timeout s' \<Longrightarrow>
     cli_request s w p h = cli_request s' w p h"
  by (simp add: cli_request_def probe_url_def)

lemma check_proxy_by_request:
  "check_proxy self w prx proto =
    (case gui_request self w prx proto of
          Inr status_code \<Rightarrow>
            (let lat = (time_end w - time_start w) * 1000
             in if status_code = 200
                then Inr \<lparr>proxy = prx, protocol = proto, status = ustr ''success'',
                          latency = lat, error = []\<rparr>
                else Inr \<lparr>proxy = prx, protocol = proto, status = ustr ''failed'',
                          latency = lat, error = ustr ''HTTP '' @ str_int status_code\<rparr>)
        | Inl Timeout \<Rightarrow>
            Inr \<lparr>proxy = prx, protocol = proto, status = ustr ''timeout'',
                 latency = of_int (timeout self * 1000), error = timeout_message\<rparr>
        | Inl (ProxyError e) \<Rightarrow>
            Inr \<lparr>proxy = prx, protocol = proto, status = ustr ''failed'',
                 latency = 0, error = proxy_error_prefix @ take 50 e\<rparr>
        | Inl (OtherException e) \<Rightarrow>
            Inr \<lparr>proxy = prx, protocol = proto, status = ustr ''failed'',
                 latency = 0, error = take 50 e\<rparr>
        | Inl (NotAnException e) \<Rightarrow> Inl (NotAnException e))"
  unfolding check_proxy_def gui_request_def probe_url_def Let_def by (rule refl)

lemma cli_check_proxy_by_request:
  "cli_check_proxy self w prx proto =
    (case cli_request self w prx proto of
          Inr status_code \<Rightarrow>
            (let lat = (time_end w - time_start w) * 1000
             in if status_code = 200
                then Inr \<lparr>proxy = prx, protocol = proto, status = ustr ''success'',
                          latency = lat, error = []\<rparr>
                else Inr \<lparr>proxy = prx, protocol = proto, status = ustr ''failed'',
                          latency = lat, error = ustr ''HTTP '' @ str_int status_code\<rparr>)
        | Inl Timeout \<Rightarrow>
            Inr \<lparr>proxy = prx, protocol = proto, status = ustr ''timeout'',
                 latency = of_int (timeout self * 1000), error = timeout_message\<rparr>
        | Inl (ProxyError e) \<Rightarrow>
            Inr \<lparr>proxy = prx, protocol = proto, status = ustr ''failed'',
                 latency = 0, error = e\<rparr>
        | Inl (OtherException e) \<Rightarrow>
            Inr \<lparr>proxy = prx, protocol = proto, status = ustr ''failed'',
                 latency = 0, error = e\<rparr>
        | Inl (NotAnException e) \<Rightarrow> Inl (NotAnException e))"
  unfolding cli_check_proxy_def cli_request_def probe_url_def Let_def by (rule refl)

lemma check_proxy_fields:
  assumes "test_url s = test_url s'" and "timeout s = timeout s'"
  shows "check_proxy s w p h = check_proxy s' w p h"
proof -
  have "gui_request s w p h = gui_request s' w p h"
    using assms by (simp add: gui_request_def probe_url_def)
  then show ?thesis using assms(2)
    by (simp add: check_proxy_by_request split: sum.splits exn.splits)
qed

lemma cli_check_proxy_fields:
  assumes "test_url s = test_url s'" and "timeout s = timeout s'"
  shows "cli_check_proxy s w p h = cli_check_proxy s' w p h"
proof -
  have "cli_request s w p h = cli_request s' w p h"
    using assms by (simp add: cli_request_def probe_url_def)
  then show ?thesis using assms(2)
    by (simp add: cli_check_proxy_by_request split: sum.splits exn.splits)
qed

lemma check_proxy_keeps_pair:
  assumes "check_proxy s w p h = Inr r"
  shows "proxy r = p \<and> protocol r = h"
proof (cases "gui_request s w p h")
  case (Inl e)
  then show ?thesis using assms
    by (cases e) (auto simp add: check_proxy_by_request)
next
  case (Inr c)
  then show ?thesis using assms
    by (cases "c = 200") (auto simp add: check_proxy_by_request)
qed

lemma cli_check_proxy_keeps_pair:
  assumes "cli_check_proxy s w p h = Inr r"
  shows "proxy r = p \<and> protocol r = h"
proof (cases "cli_request s w p h")
  case (Inl e)
  then show ?thesis using assms
    by (cases e) (auto simp add: cli_check_proxy_by_request)
next
  case (Inr c)
  then show ?thesis using assms
    by (cases "c = 200") (auto simp add: cli_check_proxy_by_request)
qed

lemma remove1_split:
  assumes "t \<in> set xs"
  obtains ys where "ys = remove1 t xs" and "mset xs = add_mset t (mset ys)" and "set ys \<subseteq> set xs"
proof
  show "remove1 t xs = remove1 t xs" ..
  show "mset xs = add_mset t (mset (remove1 t xs))" using assms by simp
  show "set (remove1 t xs) \<subseteq> set xs" by (rule set_remove1_subset)
qed

lemma probe_fields:
  "test_url s = test_url s' \<Longrightarrow> timeout s = timeout s' \<Longrightarrow> probe s ws t = probe s' ws t"
  using check_proxy_fields [of s s'] by (simp add: probe_def)

lemma pool_inv_init: "pool_inv self ws (enumerate 0 proxies) (pool_init self proxies n)"
  by (simp add: pool_inv_def pool_init_def)

lemma pool_inv_step:
  assumes "pool_step ws s s'" and "pool_inv self ws tasks s"
  shows "pool_inv self ws tasks s'"
  using assms(1)
proof (cases rule: pool_step.cases)
  case (start t q)
  with assms(2) show ?thesis by (simp add: pool_inv_def)
next
  case (complete t r)
  from assms(2) have f: "test_url s = test_url self" "timeout s = timeout self"
    by (simp_all add: pool_inv_def)
  have p: "probe self ws t = Inr r" using complete(3) probe_fields [OF f] by simp
  from complete(2) obtain ys where ys: "ys = remove1 t (working s)"
      "mset (working s) = add_mset t (mset ys)" "set ys \<subseteq> set (working s)"
    by (rule remove1_split)
  have s': "s' = s\<lparr>working := ys, finished := finished s @ [r]\<rparr>"
    using complete(1) ys(1) by simp
  show ?thesis using assms(2) ys(2,3) p unfolding s' pool_inv_def by auto
next
  case (collect r)
  from collect(2) obtain ys where ys: "ys = remove1 r (finished s)"
      "mset (finished s) = add_mset r (mset ys)" "set ys \<subseteq> set (finished s)"
    by (rule remove1_split)
  have s': "s' = s\<lparr>finished := ys, results := results s @ [r]\<rparr>"
    using collect(1) ys(1) by simp
  show ?thesis using assms(2) ys(2) unfolding s' pool_inv_def by auto
qed

lemma pool_inv_steps:
  "rtranclp (pool_step ws) s s' \<Longrightarrow> pool_inv self ws tasks s \<Longrightarrow> pool_inv self ws tasks s'"
  by (induction rule: rtranclp_induct) (auto intro: pool_inv_step)

lemma map_snd_enumerate: "map snd (enumerate n xs) = xs"
  by (simp add: enumerate_eq_zip)

lemma pool_inv_final:
  assumes "pool_inv self ws (enumerate 0 proxies) s" and "pool_final s"
  shows "mset (map Inr (results s)) = mset (map (probe self ws) (enumerate 0 proxies))"
    and "length (results s) = length proxies"
    and "mset (map (\<lambda>r. (proxy r, protocol r)) (results s)) = mset proxies"
proof -
  let ?tasks = "enumerate 0 proxies"
  from assms have eq: "image_mset Inr (mset (results s)) = image_mset (probe self ws) (mset ?tasks)"
    by (simp add: pool_inv_def pool_final_def)
  then show 1: "mset (map Inr (results s)) = mset (map (probe self ws) ?tasks)" by simp
  from eq have "size (image_mset Inr (mset (results s)) :: (exn + proxy_result) multiset)
      = size (image_mset (probe self ws) (mset ?tasks))" by simp
  then show "length (results s) = length proxies" by simp
  define key :: "exn + proxy_result \<Rightarrow> ustring \<times> ustring"
    where "key x = (case x of Inr r \<Rightarrow> (proxy r, protocol r) | Inl e \<Rightarrow> ([], []))" for x
  have k: "key (probe self ws t) = snd t" if "t \<in># mset ?tasks" for t
  proof -
    from that have "probe self ws t \<in># image_mset (probe self ws) (mset ?tasks)" by simp
    then have "probe self ws t \<in># image_mset Inr (mset (results s))" using eq by simp
    then obtain r where r: "probe self ws t = Inr r" by auto
    then show ?thesis
      using check_proxy_keeps_pair [of self "ws (fst t)" "fst (snd t)" "snd (snd t)" r]
      by (simp add: key_def probe_def)
  qed
  have "image_mset key (image_mset Inr (mset (results s)))
      = image_mset key (image_mset (probe self ws) (mset ?tasks))" using eq by simp
  moreover have "image_mset key (image_mset Inr (mset (results s)))
      = mset (map (\<lambda>r. (proxy r, protocol r)) (results s))"
    by (simp add: key_def multiset.map_comp comp_def)
  moreover have "image_mset key (image_mset (probe self ws) (mset ?tasks)) = image_mset snd (mset ?tasks)"
    unfolding multiset.map_comp comp_def using k by (intro image_mset_cong) simp
  moreover have "image_mset snd (mset ?tasks) = mset proxies"
    using map_snd_enumerate [of 0 proxies] by (metis mset_map)
  ultimately show "mset (map (\<lambda>r. (proxy r, protocol r)) (results s)) = mset proxies" by simp
qed

lemma pool_step_measure: "pool_step ws s s' \<Longrightarrow> pool_measure s' < pool_measure s"
proof (induction rule: pool_step.induct)
  case (start s t q)
  then show ?case by (simp add: pool_measure_def)
next
  case (complete t s r)
  then obtain n where "length (working s) = Suc n" by (cases "working s") auto
  with complete show ?case by (simp add: pool_measure_def length_remove1)
next
  case (collect r s)
  then obtain n where "length (finished s) = Suc n" by (cases "finished s") auto
  with collect show ?case by (simp add: pool_measure_def length_remove1)
qed

lemma pool_terminates: "wfp (\<lambda>s' s. pool_step ws s s')"
  by (rule wfp_if_convertible_to_nat [of _ pool_measure]) (rule pool_step_measure)

lemma pool_step_max_workers: "pool_step ws s s' \<Longrightarrow> max_workers s' = max_workers s"
  by (induction rule: pool_step.induct) simp_all

lemma pool_progress:
  assumes inv: "pool_inv self ws tasks s"
    and c: "0 < max_workers s"
    and ret: "\<forall>t \<in> set tasks. \<exists>r. probe self ws t = Inr r"
    and nf: "\<not> pool_final s"
  shows "\<exists>s'. pool_step ws s s'"
proof (cases "finished s")
  case (Cons r rs)
  then have "r \<in> set (finished s)" by simp
  then show ?thesis by (blast intro: pool_step.collect)
next
  case Nil
  show ?thesis
  proof (cases "working s")
    case (Cons t ts)
    then have t: "t \<in> set (working s)" by simp
    with inv have "t \<in> set tasks" by (auto simp add: pool_inv_def)
    with ret obtain r where "probe self ws t = Inr r" by blast
    moreover from inv have "test_url s = test_url self" "timeout s = timeout self"
      by (simp_all add: pool_inv_def)
    ultimately have "probe s ws t = Inr r" using probe_fields [of s self ws t] by simp
    with t show ?thesis by (blast intro: pool_step.complete)
  next
    case w: Nil
    with Nil nf obtain t q where "queued s = t # q"
      by (cases "queued s") (auto simp add: pool_final_def)
    moreover have "length (working s) < max_workers s" using w c by simp
    ultimately show ?thesis by (blast intro: pool_step.start)
  qed
qed

lemma pool_completes:
  assumes "pool_inv self ws tasks s"
    and "0 < max_workers s"
    and "\<forall>t \<in> set tasks. \<exists>r. probe self ws t = Inr r"
  shows "\<exists>s'. rtranclp (pool_step ws) s s' \<and> pool_final s'"
  using assms
proof (induction "pool_measure s" arbitrary: s rule: less_induct)
  case less
  show ?case
  proof (cases "pool_final s")
    case True
    then show ?thesis by blast
  next
    case False
    with less.prems obtain s1 where s1: "pool_step ws s s1"
      using pool_progress by blast
    have "pool_measure s1 < pool_measure s" using s1 by (rule pool_step_measure)
    moreover have "pool_inv self ws tasks s1" using s1 less.prems(1) by (rule pool_inv_step)
    moreover have "0 < max_workers s1" using pool_step_max_workers [OF s1] less.prems(2) by simp
    ultimately obtain s' where "rtranclp (pool_step ws) s1 s'" "pool_final s'"
      using less.hyps less.prems(3) by blast
    with s1 show ?thesis by (blast intro: converse_rtranclp_into_rtranclp)
  qed
qed

lemma pool_steps_max_workers:
  "rtranclp (pool_step ws) s s' \<Longrightarrow> max_workers s' = max_workers s"
  by (induction rule: rtranclp_induct) (simp_all add: pool_step_max_workers)

lemma cli_probe_fields:
  "test_url s = test_url s' \<Longrightarrow> timeout s = timeout s' \<Longrightarrow> cli_probe s ws t = cli_probe s' ws t"
  using cli_check_proxy_fields [of s s'] by (simp add: cli_probe_def)

lemma sem_inv_init: "sem_inv self ws (enumerate 0 proxies) (sem_init self proxies)"
  by (simp add: sem_inv_def sem_init_def)

lemma sem_inv_step:
  assumes "sem_step ws s s'" and "sem_inv self ws tasks s"
  shows "sem_inv self ws tasks s'"
  using assms(1)
proof (cases rule: sem_step.cases)
  case (acquire t q)
  with assms(2) show ?thesis by (simp add: sem_inv_def)
next
  case (release t r)
  from assms(2) have f: "test_url s = test_url self" "timeout s = timeout self"
    by (simp_all add: sem_inv_def)
  have p: "cli_probe self ws t = Inr r" using release(3) cli_probe_fields [OF f] by simp
  from release(2) obtain ys where ys: "ys = remove1 t (holding s)"
      "mset (holding s) = add_mset t (mset ys)" "set ys \<subseteq> set (holding s)"
    by (rule remove1_split)
  have s': "s' = s\<lparr>holding := ys, results := results s @ [r]\<rparr>"
    using release(1) ys(1) by simp
  show ?thesis using assms(2) ys(2,3) p unfolding s' sem_inv_def by auto
qed

lemma sem_inv_steps:
  "rtranclp (sem_step ws) s s' \<Longrightarrow> sem_inv self ws tasks s \<Longrightarrow> sem_inv self ws tasks s'"
  by (induction rule: rtranclp_induct) (auto intro: sem_inv_step)

lemma sem_inv_final:
  assumes "sem_inv self ws (enumerate 0 proxies) s" and "sem_final s"
  shows "mset (map Inr (results s)) = mset (map (cli_probe self ws) (enumerate 0 proxies))"
    and "length (results s) = length proxies"
    and "mset (map (\<lambda>r. (proxy r, protocol r)) (results s)) = mset proxies"
proof -
  let ?tasks = "enumerate 0 proxies"
  from assms have eq: "image_mset Inr (mset (results s)) = image_mset (cli_probe self ws) (mset ?tasks)"
    by (simp add: sem_inv_def sem_final_def)
  then show 1: "mset (map Inr (results s)) = mset (map (cli_probe self ws) ?tasks)" by simp
  from eq have "size (image_mset Inr (mset (results s)) :: (exn + proxy_result) multiset)
      = size (image_mset (cli_probe self ws) (mset ?tasks))" by simp
  then show "length (results s) = length proxies" by simp
  define key :: "exn + proxy_result \<Rightarrow> ustring \<times> ustring"
    where "key x = (case x of Inr r \<Rightarrow> (proxy r, protocol r) | Inl e \<Rightarrow> ([], []))" for x
  have k: "key (cli_probe self ws t) = snd t" if "t \<in># mset ?tasks" for t
  proof -
    from that have "cli_probe self ws t \<in># image_mset (cli_probe self ws) (mset ?tasks)" by simp
    then have "cli_probe self ws t \<in># image_mset Inr (mset (results s))" using eq by simp
    then obtain r where r: "cli_probe self ws t = Inr r" by auto
    then show ?thesis
      using cli_check_proxy_keeps_pair [of self "ws (fst t)" "fst (snd t)" "snd (snd t)" r]
      by (simp add: key_def cli_probe_def)
  qed
  have "image_mset key (image_mset Inr (mset (results s)))
      = image_mset key (image_mset (cli_probe self ws) (mset ?tasks))" using eq by simp
  moreover have "image_mset key (image_mset Inr (mset (results s)))
      = mset (map (\<lambda>r. (proxy r, protocol r)) (results s))"
    by (simp add: key_def multiset.map_comp comp_def)
  moreover have "image_mset key (image_mset (cli_probe self ws) (mset ?tasks)) = image_mset snd (mset ?tasks)"
    unfolding multiset.map_comp comp_def using k by (intro image_mset_cong) simp
  moreover have "image_mset snd (mset ?tasks) = mset proxies"
    using map_snd_enumerate [of 0 proxies] by (metis mset_map)
  ultimately show "mset (map (\<lambda>r. (proxy r, protocol r)) (results s)) = mset proxies" by simp
qed

lemma sem_step_measure: "sem_step ws s s' \<Longrightarrow> sem_measure s' < sem_measure s"
proof (induction rule: sem_step.induct)
  case (acquire s t q)
  then show ?case by (simp add: sem_measure_def)
next
  case (release t s r)
  then obtain n where "length (holding s) = Suc n" by (cases "holding s") auto
  with release show ?case by (simp add: sem_measure_def length_remove1)
qed

lemma sem_terminates: "wfp (\<lambda>s' s. sem_step ws s s')"
  by (rule wfp_if_convertible_to_nat [of _ sem_measure]) (rule sem_step_measure)

lemma sem_step_concurrency: "sem_step ws s s' \<Longrightarrow> concurrency s' = concurrency s"
  by (induction rule: sem_step.induct) simp_all

lemma sem_progress:
  assumes inv: "sem_inv self ws tasks s"
    and c: "0 < concurrency s"
    and ret: "\<forall>t \<in> set tasks. \<exists>r. cli_probe self ws t = Inr r"
    and nf: "\<not> sem_final s"
  shows "\<exists>s'. sem_step ws s s'"
proof (cases "holding s")
  case (Cons t ts)
  then have t: "t \<in> set (holding s)" by simp
  with inv have "t \<in> set tasks" by (auto simp add: sem_inv_def)
  with ret obtain r where "cli_probe self ws t = Inr r" by blast
  moreover from inv have "test_url s = test_url self" "timeout s = timeout self"
    by (simp_all add: sem_inv_def)
  ultimately have "cli_probe s ws t = Inr r" using cli_probe_fields [of s self ws t] by simp
  with t show ?thesis by (blast intro: sem_step.release)
next
  case w: Nil
  with nf obtain t q where "waiting s = t # q"
    by (cases "waiting s") (auto simp add: sem_final_def)
  moreover have "int (length (holding s)) < concurrency s" using w c by simp
  ultimately show ?thesis by (blast intro: sem_step.acquire)
qed

lemma sem_completes:
  assumes "sem_inv self ws tasks s"
    and "0 < concurrency s"
    and "\<forall>t \<in> set tasks. \<exists>r. cli_probe self ws t = Inr r"
  shows "\<exists>s'. rtranclp (sem_step ws) s s' \<and> sem_final s'"
  using assms
proof (induction "sem_measure s" arbitrary: s rule: less_induct)
  case less
  show ?case
  proof (cases "sem_final s")
    case True
    then show ?thesis by blast
  next
    case False
    with less.prems obtain s1 where s1: "sem_step ws s s1"
      using sem_progress by blast
    have "sem_measure s1 < sem_measure s" using s1 by (rule sem_step_measure)
    moreover have "sem_inv self ws tasks s1" using s1 less.prems(1) by (rule sem_inv_step)
    moreover have "0 < concurrency s1" using sem_step_concurrency [OF s1] less.prems(2) by simp
    ultimately obtain s' where "rtranclp (sem_step ws) s1 s'" "sem_final s'"
      using less.hyps less.prems(3) by blast
    with s1 show ?thesis by (blast intro: converse_rtranclp_into_rtranclp)
  qed
qed

lemma sem_steps_concurrency:
  "rtranclp (sem_step ws) s s' \<Longrightarrow> concurrency s' = concurrency s"
  by (induction rule: rtranclp_induct) (simp_all add: sem_step_concurrency)

text \<open>
  C1. When \<open>check_proxies_batch\<close> returns, in either checker and whatever the order in
  which the probes complete, \<open>results\<close> has exactly as many entries as the input has
  pairs, the pairs \<open>(proxy, protocol)\<close> of the results are the input pairs, each as often
  as the input has it, and the results are the results of the probes of the input, one
  for each. With a ceiling of at least 1, and when no probe is interrupted by something
  that is no \<open>Exception\<close>, the call does return: every run that has begun can be
  continued to the end, and no run goes on for ever.
\<close>

theorem check_proxies_batch_one_result_per_pair:
  "(check_proxies_batch self ws proxies c (Inr rs) \<longrightarrow>
      length rs = length proxies
      \<and> mset (map (\<lambda>r. (proxy r, protocol r)) rs) = mset proxies
      \<and> mset (map Inr rs) = mset (map (probe self ws) (enumerate 0 proxies)))
   \<and> (1 \<le> c \<and> (\<forall>t \<in> set (enumerate 0 proxies). \<exists>r. probe self ws t = Inr r) \<longrightarrow>
      (\<exists>rs. check_proxies_batch self ws proxies c (Inr rs))
      \<and> (\<forall>s. rtranclp (pool_step ws) (pool_init self proxies (nat c)) s \<longrightarrow>
             (\<exists>s'. rtranclp (pool_step ws) s s' \<and> pool_final s')))
   \<and> wfp (\<lambda>s' s. pool_step ws s s')
   \<and> (cli_check_proxies_batch self' ws' proxies' (Inr rs') \<longrightarrow>
      length rs' = length proxies'
      \<and> mset (map (\<lambda>r. (proxy r, protocol r)) rs') = mset proxies'
      \<and> mset (map Inr rs') = mset (map (cli_probe self' ws') (enumerate 0 proxies')))
   \<and> (1 \<le> concurrency self'
        \<and> (\<forall>t \<in> set (enumerate 0 proxies'). \<exists>r. cli_probe self' ws' t = Inr r) \<longrightarrow>
      (\<exists>rs. cli_check_proxies_batch self' ws' proxies' (Inr rs))
      \<and> (\<forall>s. rtranclp (sem_step ws') (sem_init self' proxies') s \<longrightarrow>
             (\<exists>s'. rtranclp (sem_step ws') s s' \<and> sem_final s')))
   \<and> wfp (\<lambda>s' s. sem_step ws' s s')"
proof (intro conjI impI)
  assume "check_proxies_batch self ws proxies c (Inr rs)"
  then obtain s where s: "rtranclp (pool_step ws) (pool_init self proxies (nat c)) s"
      "pool_final s" "rs = results s"
    by (auto elim: check_proxies_batch.cases)
  have inv: "pool_inv self ws (enumerate 0 proxies) s"
    using s(1) pool_inv_init by (rule pool_inv_steps)
  show "length rs = length proxies"
    and "mset (map (\<lambda>r. (proxy r, protocol r)) rs) = mset proxies"
    and "mset (map Inr rs) = mset (map (probe self ws) (enumerate 0 proxies))"
    using pool_inv_final [OF inv s(2)] s(3) by simp_all
next
  assume a: "1 \<le> c \<and> (\<forall>t \<in> set (enumerate 0 proxies). \<exists>r. probe self ws t = Inr r)"
  have reach: "\<exists>s'. rtranclp (pool_step ws) s s' \<and> pool_final s'"
    if "rtranclp (pool_step ws) (pool_init self proxies (nat c)) s" for s
  proof -
    have "pool_inv self ws (enumerate 0 proxies) s"
      using that pool_inv_init by (rule pool_inv_steps)
    moreover have "0 < max_workers s"
      using pool_steps_max_workers [OF that] a by (simp add: pool_init_def)
    ultimately show ?thesis using a pool_completes by blast
  qed
  then show "\<forall>s. rtranclp (pool_step ws) (pool_init self proxies (nat c)) s \<longrightarrow>
             (\<exists>s'. rtranclp (pool_step ws) s s' \<and> pool_final s')" by blast
  from reach [of "pool_init self proxies (nat c)"]
  obtain s' where "rtranclp (pool_step ws) (pool_init self proxies (nat c)) s'" "pool_final s'"
    by blast
  moreover have "0 < c" using a by simp
  ultimately show "\<exists>rs. check_proxies_batch self ws proxies c (Inr rs)"
    by (blast intro: check_proxies_batch.returns)
next
  show "wfp (\<lambda>s' s. pool_step ws s s')" by (rule pool_terminates)
next
  assume "cli_check_proxies_batch self' ws' proxies' (Inr rs')"
  then obtain s where s: "rtranclp (sem_step ws') (sem_init self' proxies') s"
      "sem_final s" "rs' = results s"
    by (auto elim: cli_check_proxies_batch.cases)
  have inv: "sem_inv self' ws' (enumerate 0 proxies') s"
    using s(1) sem_inv_init by (rule sem_inv_steps)
  show "length rs' = length proxies'"
    and "mset (map (\<lambda>r. (proxy r, protocol r)) rs') = mset proxies'"
    and "mset (map Inr rs') = mset (map (cli_probe self' ws') (enumerate 0 proxies'))"
    using sem_inv_final [OF inv s(2)] s(3) by simp_all
next
  assume a: "1 \<le> concurrency self'
        \<and> (\<forall>t \<in> set (enumerate 0 proxies'). \<exists>r. cli_probe self' ws' t = Inr r)"
  have reach: "\<exists>s'. rtranclp (sem_step ws') s s' \<and> sem_final s'"
    if "rtranclp (sem_step ws') (sem_init self' proxies') s" for s
  proof -
    have "sem_inv self' ws' (enumerate 0 proxies') s"
      using that sem_inv_init by (rule sem_inv_steps)
    moreover have "0 < concurrency s"
      using sem_steps_concurrency [OF that] a by (simp add: sem_init_def)
    ultimately show ?thesis using a sem_completes by blast
  qed
  then show "\<forall>s. rtranclp (sem_step ws') (sem_init self' proxies') s \<longrightarrow>
             (\<exists>s'. rtranclp (sem_step ws') s s' \<and> sem_final s')" by blast
  from reach [of "sem_init self' proxies'"]
  obtain s' where "rtranclp (sem_step ws') (sem_init self' proxies') s'" "sem_final s'"
    by blast
  moreover have "0 \<le> concurrency self'" using a by simp
  ultimately show "\<exists>rs. cli_check_proxies_batch self' ws' proxies' (Inr rs)"
    by (blast intro: cli_check_proxies_batch.returns)
next
  show "wfp (\<lambda>s' s. sem_step ws' s s')" by (rule sem_terminates)
qed

lemma pool0_start:
  "length w < n \<Longrightarrow> pool_step ws (pool0 n (t # q) w f r) (pool0 n q (w @ [t]) f r)"
  using pool_step.start [of "pool0 n (t # q) w f r" t q ws] by (simp add: pool0_def)

lemma pool0_complete:
  "t \<in> set w \<Longrightarrow> probe (pool0 n q w f r) ws t = Inr x \<Longrightarrow>
     pool_step ws (pool0 n q w f r) (pool0 n q (remove1 t w) (f @ [x]) r)"
  using pool_step.complete [of t "pool0 n q w f r" ws x] by (simp add: pool0_def)

lemma pool0_collect:
  "x \<in> set f \<Longrightarrow> pool_step ws (pool0 n q w f r) (pool0 n q w (remove1 x f) (r @ [x]))"
  using pool_step.collect [of x "pool0 n q w f r" ws] by (simp add: pool0_def)

lemma sem0_acquire:
  "length h < 10 \<Longrightarrow> sem_step ws (sem0 (t # q) h r) (sem0 q (h @ [t]) r)"
  using sem_step.acquire [of "sem0 (t # q) h r" t q ws] by (simp add: sem0_def)

lemma sem0_release:
  "t \<in> set h \<Longrightarrow> cli_probe (sem0 q h r) ws t = Inr x \<Longrightarrow>
     sem_step ws (sem0 q h r) (sem0 q (remove1 t h) (r @ [x]))"
  using sem_step.release [of t "sem0 q h r" ws x] by (simp add: sem0_def)

lemma probe0_a:
  "probe (pool0 n q w f r) ws0 (0, ustr ''10.0.0.1:8080'', ustr ''http'') = Inr res_a"
  by (simp add: probe_def check_proxy_by_request gui_request_def ws0_def world_of_def
      pool0_def res_a_def)

lemma probe0_b:
  "probe (pool0 n q w f r) ws0 (Suc 0, ustr ''10.0.0.2:1080'', ustr ''socks5'') = Inr res_b"
  by (simp add: probe_def check_proxy_by_request gui_request_def ws0_def world_of_def
      pool0_def res_b_def)

lemma cli_probe0_a:
  "cli_probe (sem0 q h r) ws0 (0, ustr ''10.0.0.1:8080'', ustr ''http'') = Inr res_a"
  by (simp add: cli_probe_def cli_check_proxy_by_request cli_request_def ws0_def world_of_def
      sem0_def res_a_def)

lemma cli_probe0_b:
  "cli_probe (sem0 q h r) ws0 (Suc 0, ustr ''10.0.0.2:1080'', ustr ''socks5'') = Inr res_b"
  by (simp add: cli_probe_def cli_check_proxy_by_request cli_request_def ws0_def world_of_def
      sem0_def res_b_def)

lemma tasks0: "enumerate 0 two_proxies =
    [(0, ustr ''10.0.0.1:8080'', ustr ''http''), (Suc 0, ustr ''10.0.0.2:1080'', ustr ''socks5'')]"
  by (simp add: two_proxies_def)

lemma pool0_run:
  "check_proxies_batch chk0 ws0 two_proxies 2 (Inr [res_b, res_a])"
proof -
  let ?a = "(0::nat, ustr ''10.0.0.1:8080'', ustr ''http'')"
  let ?b = "(Suc 0, ustr ''10.0.0.2:1080'', ustr ''socks5'')"
  have i: "pool_init chk0 two_proxies (nat 2) = pool0 2 [?a, ?b] [] [] []"
    by (simp add: pool_init_def pool0_def chk0_def tasks0)
  have 1: "pool_step ws0 (pool0 2 [?a, ?b] [] [] []) (pool0 2 [?b] [?a] [] [])"
    using pool0_start [of "[]" 2 ws0 ?a "[?b]" "[]" "[]"] by simp
  have 2: "pool_step ws0 (pool0 2 [?b] [?a] [] []) (pool0 2 [] [?a, ?b] [] [])"
    using pool0_start [of "[?a]" 2 ws0 ?b "[]" "[]" "[]"] by simp
  have 3: "pool_step ws0 (pool0 2 [] [?a, ?b] [] []) (pool0 2 [] [?a] [res_b] [])"
    using pool0_complete [of ?b "[?a, ?b]" 2 "[]" "[]" "[]" ws0 res_b] probe0_b by simp
  have 4: "pool_step ws0 (pool0 2 [] [?a] [res_b] []) (pool0 2 [] [] [res_b, res_a] [])"
    using pool0_complete [of ?a "[?a]" 2 "[]" "[res_b]" "[]" ws0 res_a] probe0_a by simp
  have 5: "pool_step ws0 (pool0 2 [] [] [res_b, res_a] []) (pool0 2 [] [] [res_a] [res_b])"
    using pool0_collect [of res_b "[res_b, res_a]" ws0 2 "[]" "[]" "[]"] by simp
  have 6: "pool_step ws0 (pool0 2 [] [] [res_a] [res_b]) (pool0 2 [] [] [] [res_b, res_a])"
    using pool0_collect [of res_a "[res_a]" ws0 2 "[]" "[]" "[res_b]"] by simp
  have "rtranclp (pool_step ws0) (pool_init chk0 two_proxies (nat 2)) (pool0 2 [] [] [] [res_b, res_a])"
    unfolding i using 1 2 3 4 5 6 by (meson rtranclp.rtrancl_into_rtrancl rtranclp.rtrancl_refl)
  moreover have "pool_final (pool0 2 [] [] [] [res_b, res_a])"
    by (simp add: pool_final_def pool0_def)
  moreover have "(0::int) < 2" by simp
  ultimately have "check_proxies_batch chk0 ws0 two_proxies 2
      (Inr (results (pool0 2 [] [] [] [res_b, res_a])))"
    by (rule check_proxies_batch.returns [rotated])
  then show ?thesis by (simp add: pool0_def)
qed

lemma sem0_run:
  "cli_check_proxies_batch cli0 ws0 two_proxies (Inr [res_b, res_a])"
proof -
  let ?a = "(0::nat, ustr ''10.0.0.1:8080'', ustr ''http'')"
  let ?b = "(Suc 0, ustr ''10.0.0.2:1080'', ustr ''socks5'')"
  have i: "sem_init cli0 two_proxies = sem0 [?a, ?b] [] []"
    by (simp add: sem_init_def sem0_def cli0_def tasks0)
  have 1: "sem_step ws0 (sem0 [?a, ?b] [] []) (sem0 [?b] [?a] [])"
    using sem0_acquire [of "[]" ws0 ?a "[?b]" "[]"] by simp
  have 2: "sem_step ws0 (sem0 [?b] [?a] []) (sem0 [] [?a, ?b] [])"
    using sem0_acquire [of "[?a]" ws0 ?b "[]" "[]"] by simp
  have 3: "sem_step ws0 (sem0 [] [?a, ?b] []) (sem0 [] [?a] [res_b])"
    using sem0_release [of ?b "[?a, ?b]" "[]" "[]" ws0 res_b] cli_probe0_b by simp
  have 4: "sem_step ws0 (sem0 [] [?a] [res_b]) (sem0 [] [] [res_b, res_a])"
    using sem0_release [of ?a "[?a]" "[]" "[res_b]" ws0 res_a] cli_probe0_a by simp
  have "rtranclp (sem_step ws0) (sem_init cli0 two_proxies) (sem0 [] [] [res_b, res_a])"
    unfolding i using 1 2 3 4 by (meson rtranclp.rtrancl_into_rtrancl rtranclp.rtrancl_refl)
  moreover have "sem_final (sem0 [] [] [res_b, res_a])"
    by (simp add: sem_final_def sem0_def)
  moreover have "0 \<le> concurrency cli0" by (simp add: cli0_def)
  ultimately have "cli_check_proxies_batch cli0 ws0 two_proxies
      (Inr (results (sem0 [] [] [res_b, res_a])))"
    by (rule cli_check_proxies_batch.returns [rotated])
  then show ?thesis by (simp add: sem0_def)
qed

theorem check_proxies_batch_one_result_per_pair_witness:
  "check_proxies_batch chk0 ws0 two_proxies 2 (Inr [res_b, res_a])
   \<and> length [res_b, res_a] = length two_proxies
   \<and> mset (map (\<lambda>r. (proxy r, protocol r)) [res_b, res_a]) = mset two_proxies
   \<and> cli_check_proxies_batch cli0 ws0 two_proxies (Inr [res_b, res_a])
   \<and> (1::int) \<le> 2 \<and> 1 \<le> concurrency cli0
   \<and> probe chk0 ws0 (0, ustr ''10.0.0.1:8080'', ustr ''http'') = Inr res_a
   \<and> probe chk0 ws0 (Suc 0, ustr ''10.0.0.2:1080'', ustr ''socks5'') = Inr res_b
   \<and> cli_probe cli0 ws0 (0, ustr ''10.0.0.1:8080'', ustr ''http'') = Inr res_a
   \<and> cli_probe cli0 ws0 (Suc 0, ustr ''10.0.0.2:1080'', ustr ''socks5'') = Inr res_b"
proof -
  have pa: "probe chk0 ws0 (0, ustr ''10.0.0.1:8080'', ustr ''http'') = Inr res_a"
    using probe0_a [of 2 "[]" "[]" "[]" "[]"] probe_fields [of chk0 "pool0 2 [] [] [] []"]
    by (simp add: chk0_def pool0_def)
  have pb: "probe chk0 ws0 (Suc 0, ustr ''10.0.0.2:1080'', ustr ''socks5'') = Inr res_b"
    using probe0_b [of 2 "[]" "[]" "[]" "[]"] probe_fields [of chk0 "pool0 2 [] [] [] []"]
    by (simp add: chk0_def pool0_def)
  have ca: "cli_probe cli0 ws0 (0, ustr ''10.0.0.1:8080'', ustr ''http'') = Inr res_a"
    using cli_probe0_a [of "[]" "[]" "[]"] cli_probe_fields [of cli0 "sem0 [] [] []"]
    by (simp add: cli0_def sem0_def)
  have cb: "cli_probe cli0 ws0 (Suc 0, ustr ''10.0.0.2:1080'', ustr ''socks5'') = Inr res_b"
    using cli_probe0_b [of "[]" "[]" "[]"] cli_probe_fields [of cli0 "sem0 [] [] []"]
    by (simp add: cli0_def sem0_def)
  have c: "1 \<le> concurrency cli0" by (simp add: cli0_def)
  show ?thesis
    using check_proxies_batch_one_result_per_pair [of chk0 ws0 two_proxies 2 "[res_b, res_a]"
        cli0 ws0 two_proxies "[res_b, res_a]"] pool0_run sem0_run pa pb ca cb c
    by simp
qed

lemma pool_step_results_prefix: "pool_step ws s s' \<Longrightarrow> prefix (results s) (results s')"
  by (induction rule: pool_step.induct) simp_all

lemma job_stop_check: "job (stop_check g) = job g"
  by (simp add: stop_check_def)

lemma gui_step_job: "gui_step ws g g' \<Longrightarrow> job g' = job g \<or> pool_step ws (job g) (job g')"
  by (induction rule: gui_step.induct) (simp_all add: stop_check_def)

lemma gui_steps_job:
  "rtranclp (gui_step ws) g g' \<Longrightarrow> rtranclp (pool_step ws) (job g) (job g')"
proof (induction rule: rtranclp_induct)
  case base
  show ?case by simp
next
  case (step y z)
  from gui_step_job [OF step(2)] step(3) show ?case
    by (auto intro: rtranclp.rtrancl_into_rtrancl)
qed

lemma pool_steps_gui:
  "rtranclp (pool_step ws) (job g) p \<Longrightarrow> rtranclp (gui_step ws) g (g\<lparr>job := p\<rparr>)"
proof (induction rule: rtranclp_induct)
  case base
  show ?case by simp
next
  case (step y z)
  have "pool_step ws (job (g\<lparr>job := y\<rparr>)) z" using step(2) by simp
  then have "gui_step ws (g\<lparr>job := y\<rparr>) (g\<lparr>job := y\<rparr>\<lparr>job := z\<rparr>)" by (rule gui_step.worker)
  then have "gui_step ws (g\<lparr>job := y\<rparr>) (g\<lparr>job := z\<rparr>)" by simp
  with step(3) show ?case by (rule rtranclp.rtrancl_into_rtrancl)
qed

text \<open>
  C7, amended. \<open>stop_check\<close> clears \<open>is_checking\<close> and leaves the batch as it
  is: every step the batch could make before, it can make after, the start of a probe not
  yet started included; no step removes a result; a check that reaches its end has one
  result for every input pair, whether or not the stop button was pressed on the way; and
  after a stop at any moment the batch can still run to that end.
\<close>

theorem stop_check_leaves_batch_running:
  "job (stop_check g) = job g \<and> \<not> is_checking (stop_check g)
   \<and> (pool_step ws (job g) p \<longrightarrow> gui_step ws (stop_check g) ((stop_check g)\<lparr>job := p\<rparr>))
   \<and> (gui_step ws g g' \<longrightarrow> prefix (results (job g)) (results (job g')))
   \<and> (proxies \<noteq> [] \<and> rtranclp (gui_step ws) (start_check g0 u t n proxies) g1
        \<and> pool_final (job g1) \<longrightarrow>
      length (results (job g1)) = length proxies
      \<and> mset (map (\<lambda>r. (proxy r, protocol r)) (results (job g1))) = mset proxies)
   \<and> (proxies \<noteq> [] \<and> 0 < n
        \<and> (\<forall>k \<in> set (enumerate 0 proxies).
              \<exists>r. probe ((job g0)\<lparr>test_url := u, timeout := t\<rparr>) ws k = Inr r)
        \<and> rtranclp (gui_step ws) (start_check g0 u t n proxies) g1 \<longrightarrow>
      (\<exists>g2. rtranclp (gui_step ws) (stop_check g1) g2 \<and> pool_final (job g2)
            \<and> length (results (job g2)) = length proxies))"
proof (intro conjI impI)
  show "job (stop_check g) = job g" by (rule job_stop_check)
  show "\<not> is_checking (stop_check g)" by (simp add: stop_check_def)
next
  assume "pool_step ws (job g) p"
  then have "pool_step ws (job (stop_check g)) p" by (simp add: job_stop_check)
  then show "gui_step ws (stop_check g) ((stop_check g)\<lparr>job := p\<rparr>)" by (rule gui_step.worker)
next
  assume "gui_step ws g g'"
  from gui_step_job [OF this] show "prefix (results (job g)) (results (job g'))"
    by (auto dest: pool_step_results_prefix)
next
  let ?self = "(job g0)\<lparr>test_url := u, timeout := t\<rparr>"
  assume a: "proxies \<noteq> [] \<and> rtranclp (gui_step ws) (start_check g0 u t n proxies) g1
        \<and> pool_final (job g1)"
  then have st: "job (start_check g0 u t n proxies) = pool_init ?self proxies n"
    by (simp add: start_check_def)
  from a have "rtranclp (pool_step ws) (job (start_check g0 u t n proxies)) (job g1)"
    by (blast intro: gui_steps_job)
  then have "rtranclp (pool_step ws) (pool_init ?self proxies n) (job g1)"
    by (simp only: st)
  then have "pool_inv ?self ws (enumerate 0 proxies) (job g1)"
    using pool_inv_init by (rule pool_inv_steps)
  from pool_inv_final(2,3) [OF this] a
  show "length (results (job g1)) = length proxies"
    and "mset (map (\<lambda>r. (proxy r, protocol r)) (results (job g1))) = mset proxies"
    by simp_all
next
  let ?self = "(job g0)\<lparr>test_url := u, timeout := t\<rparr>"
  assume a: "proxies \<noteq> [] \<and> 0 < n
        \<and> (\<forall>k \<in> set (enumerate 0 proxies). \<exists>r. probe ?self ws k = Inr r)
        \<and> rtranclp (gui_step ws) (start_check g0 u t n proxies) g1"
  then have st: "job (start_check g0 u t n proxies) = pool_init ?self proxies n"
    by (simp add: start_check_def)
  from a have "rtranclp (pool_step ws) (job (start_check g0 u t n proxies)) (job g1)"
    by (blast intro: gui_steps_job)
  then have run: "rtranclp (pool_step ws) (pool_init ?self proxies n) (job g1)"
    by (simp only: st)
  then have inv: "pool_inv ?self ws (enumerate 0 proxies) (job g1)"
    using pool_inv_init by (rule pool_inv_steps)
  have "0 < max_workers (job g1)"
    using pool_steps_max_workers [OF run] a by (simp add: pool_init_def)
  with inv a obtain p where p: "rtranclp (pool_step ws) (job g1) p" "pool_final p"
    using pool_completes [of ?self ws "enumerate 0 proxies" "job g1"] by blast
  have "pool_inv ?self ws (enumerate 0 proxies) p" using p(1) inv by (rule pool_inv_steps)
  from pool_inv_final(2) [OF this p(2)] have len: "length (results p) = length proxies" .
  have "rtranclp (gui_step ws) (stop_check g1) ((stop_check g1)\<lparr>job := p\<rparr>)"
    using p(1) pool_steps_gui [of ws "stop_check g1" p] by (simp add: job_stop_check)
  with p(2) len show "\<exists>g2. rtranclp (gui_step ws) (stop_check g1) g2 \<and> pool_final (job g2)
            \<and> length (results (job g2)) = length proxies"
    by (intro exI [of _ "(stop_check g1)\<lparr>job := p\<rparr>"]) simp
qed

lemma gui0_worker: "pool_step ws p p' \<Longrightarrow> gui_step ws (gui0 c p) (gui0 c p')"
  using gui_step.worker [of ws "gui0 c p" p'] by (simp add: gui0_def)

lemma gui0_job_update: "(gui0 c q)\<lparr>job := p\<rparr> = gui0 c p"
  by (simp add: gui0_def)

lemma gui0_stop: "stop_check (gui0 True p) = gui0 False p"
  by (simp add: stop_check_def gui0_def)

lemma gui0_start_check:
  "start_check (gui0 False (pool0 0 [] [] [] [])) (ustr ''www.google.com'') 2 1 two_proxies =
     gui0 True (pool0 1 [(0, ustr ''10.0.0.1:8080'', ustr ''http''),
                         (Suc 0, ustr ''10.0.0.2:1080'', ustr ''socks5'')] [] [] [])"
  by (simp add: start_check_def gui0_def pool_init_def pool0_def tasks0) (simp add: two_proxies_def)

lemma gui0_before_stop:
  "rtranclp (gui_step ws0)
     (start_check (gui0 False (pool0 0 [] [] [] [])) (ustr ''www.google.com'') 2 1 two_proxies)
     (gui0 True (pool0 1 [(Suc 0, ustr ''10.0.0.2:1080'', ustr ''socks5'')]
                         [(0, ustr ''10.0.0.1:8080'', ustr ''http'')] [] []))"
proof -
  let ?a = "(0::nat, ustr ''10.0.0.1:8080'', ustr ''http'')"
  let ?b = "(Suc 0, ustr ''10.0.0.2:1080'', ustr ''socks5'')"
  have "pool_step ws0 (pool0 1 [?a, ?b] [] [] []) (pool0 1 [?b] [?a] [] [])"
    using pool0_start [of "[]" 1 ws0 ?a "[?b]" "[]" "[]"] by simp
  then have "gui_step ws0 (gui0 True (pool0 1 [?a, ?b] [] [] [])) (gui0 True (pool0 1 [?b] [?a] [] []))"
    by (rule gui0_worker)
  then show ?thesis unfolding gui0_start_check by (rule r_into_rtranclp)
qed

lemma gui0_after_stop:
  "rtranclp (gui_step ws0)
     (gui0 False (pool0 1 [(Suc 0, ustr ''10.0.0.2:1080'', ustr ''socks5'')]
                          [(0, ustr ''10.0.0.1:8080'', ustr ''http'')] [] []))
     (gui0 False (pool0 1 [] [(Suc 0, ustr ''10.0.0.2:1080'', ustr ''socks5'')] [res_a] []))"
proof -
  let ?a = "(0::nat, ustr ''10.0.0.1:8080'', ustr ''http'')"
  let ?b = "(Suc 0, ustr ''10.0.0.2:1080'', ustr ''socks5'')"
  have "pool_step ws0 (pool0 1 [?b] [?a] [] []) (pool0 1 [?b] [] [res_a] [])"
    using pool0_complete [of ?a "[?a]" 1 "[?b]" "[]" "[]" ws0 res_a] probe0_a by simp
  then have 1: "gui_step ws0 (gui0 False (pool0 1 [?b] [?a] [] []))
      (gui0 False (pool0 1 [?b] [] [res_a] []))"
    by (rule gui0_worker)
  have "pool_step ws0 (pool0 1 [?b] [] [res_a] []) (pool0 1 [] [?b] [res_a] [])"
    using pool0_start [of "[]" 1 ws0 ?b "[]" "[res_a]" "[]"] by simp
  then have 2: "gui_step ws0 (gui0 False (pool0 1 [?b] [] [res_a] []))
      (gui0 False (pool0 1 [] [?b] [res_a] []))"
    by (rule gui0_worker)
  from 1 2 show ?thesis by (meson rtranclp.rtrancl_into_rtrancl rtranclp.rtrancl_refl)
qed

lemma gui0_to_the_end:
  "rtranclp (gui_step ws0)
     (gui0 False (pool0 1 [] [(Suc 0, ustr ''10.0.0.2:1080'', ustr ''socks5'')] [res_a] []))
     (gui0 False (pool0 1 [] [] [] [res_a, res_b]))"
proof -
  let ?b = "(Suc 0, ustr ''10.0.0.2:1080'', ustr ''socks5'')"
  have "pool_step ws0 (pool0 1 [] [?b] [res_a] []) (pool0 1 [] [] [res_a, res_b] [])"
    using pool0_complete [of ?b "[?b]" 1 "[]" "[res_a]" "[]" ws0 res_b] probe0_b by simp
  then have 1: "gui_step ws0 (gui0 False (pool0 1 [] [?b] [res_a] []))
      (gui0 False (pool0 1 [] [] [res_a, res_b] []))"
    by (rule gui0_worker)
  have "pool_step ws0 (pool0 1 [] [] [res_a, res_b] []) (pool0 1 [] [] [res_b] [res_a])"
    using pool0_collect [of res_a "[res_a, res_b]" ws0 1 "[]" "[]" "[]"] by simp
  then have 2: "gui_step ws0 (gui0 False (pool0 1 [] [] [res_a, res_b] []))
      (gui0 False (pool0 1 [] [] [res_b] [res_a]))"
    by (rule gui0_worker)
  have "pool_step ws0 (pool0 1 [] [] [res_b] [res_a]) (pool0 1 [] [] [] [res_a, res_b])"
    using pool0_collect [of res_b "[res_b]" ws0 1 "[]" "[]" "[res_a]"] by simp
  then have 3: "gui_step ws0 (gui0 False (pool0 1 [] [] [res_b] [res_a]))
      (gui0 False (pool0 1 [] [] [] [res_a, res_b]))"
    by (rule gui0_worker)
  from 1 2 3 show ?thesis by (meson rtranclp.rtrancl_into_rtrancl rtranclp.rtrancl_refl)
qed

text \<open>
  C7, as stated, fails. With one worker and two proxies, the stop button is pressed
  while the first probe runs; \<open>is_checking\<close> is then false, and the batch goes on: the
  first probe completes and the second one, not yet started when the signal came, is
  started.
\<close>

theorem stop_check_new_probe_scheduled:
  "rtranclp (gui_step ws0)
     (start_check (gui0 False (pool0 0 [] [] [] [])) (ustr ''www.google.com'') 2 1 two_proxies)
     (gui0 True (pool0 1 [(Suc 0, ustr ''10.0.0.2:1080'', ustr ''socks5'')]
                         [(0, ustr ''10.0.0.1:8080'', ustr ''http'')] [] []))
   \<and> stop_check (gui0 True (pool0 1 [(Suc 0, ustr ''10.0.0.2:1080'', ustr ''socks5'')]
                         [(0, ustr ''10.0.0.1:8080'', ustr ''http'')] [] []))
       = gui0 False (pool0 1 [(Suc 0, ustr ''10.0.0.2:1080'', ustr ''socks5'')]
                         [(0, ustr ''10.0.0.1:8080'', ustr ''http'')] [] [])
   \<and> \<not> is_checking (gui0 False (pool0 1 [(Suc 0, ustr ''10.0.0.2:1080'', ustr ''socks5'')]
                         [(0, ustr ''10.0.0.1:8080'', ustr ''http'')] [] []))
   \<and> rtranclp (gui_step ws0)
     (gui0 False (pool0 1 [(Suc 0, ustr ''10.0.0.2:1080'', ustr ''socks5'')]
                          [(0, ustr ''10.0.0.1:8080'', ustr ''http'')] [] []))
     (gui0 False (pool0 1 [] [(Suc 0, ustr ''10.0.0.2:1080'', ustr ''socks5'')] [res_a] []))
   \<and> working (job (gui0 False
        (pool0 1 [] [(Suc 0, ustr ''10.0.0.2:1080'', ustr ''socks5'')] [res_a] [])))
       = [(Suc 0, ustr ''10.0.0.2:1080'', ustr ''socks5'')]"
  using gui0_before_stop gui0_after_stop
  by (simp add: gui0_stop) (simp add: gui0_def pool0_def)

theorem stop_check_leaves_batch_running_witness:
  "pool_step ws0 (pool0 1 [(Suc 0, ustr ''10.0.0.2:1080'', ustr ''socks5'')]
                          [(0, ustr ''10.0.0.1:8080'', ustr ''http'')] [] [])
                 (pool0 1 [(Suc 0, ustr ''10.0.0.2:1080'', ustr ''socks5'')] [] [res_a] [])
   \<and> gui_step ws0 (gui0 False (pool0 1 [(Suc 0, ustr ''10.0.0.2:1080'', ustr ''socks5'')]
                          [(0, ustr ''10.0.0.1:8080'', ustr ''http'')] [] []))
                  (gui0 False (pool0 1 [(Suc 0, ustr ''10.0.0.2:1080'', ustr ''socks5'')] [] [res_a] []))
   \<and> two_proxies \<noteq> []
   \<and> rtranclp (gui_step ws0)
       (start_check (gui0 False (pool0 0 [] [] [] [])) (ustr ''www.google.com'') 2 1 two_proxies)
       (gui0 False (pool0 1 [] [] [] [res_a, res_b]))
   \<and> pool_final (job (gui0 False (pool0 1 [] [] [] [res_a, res_b])))
   \<and> length (results (job (gui0 False (pool0 1 [] [] [] [res_a, res_b])))) = length two_proxies
   \<and> mset (map (\<lambda>r. (proxy r, protocol r))
         (results (job (gui0 False (pool0 1 [] [] [] [res_a, res_b]))))) = mset two_proxies"
proof -
  let ?a = "(0::nat, ustr ''10.0.0.1:8080'', ustr ''http'')"
  let ?b = "(Suc 0, ustr ''10.0.0.2:1080'', ustr ''socks5'')"
  let ?g = "gui0 True (pool0 1 [?b] [?a] [] [])"
  let ?p = "pool0 1 [?b] [] [res_a] []"
  let ?idle = "gui0 False (pool0 0 [] [] [] [])"
  let ?end = "gui0 False (pool0 1 [] [] [] [res_a, res_b])"
  have ps: "pool_step ws0 (pool0 1 [?b] [?a] [] []) ?p"
    using pool0_complete [of ?a "[?a]" 1 "[?b]" "[]" "[]" ws0 res_a] probe0_a by simp
  then have ps': "pool_step ws0 (job ?g) ?p" by (simp add: gui0_def)
  have stop: "gui_step ws0 ?g (stop_check ?g)"
    by (rule gui_step.stop) (simp add: gui0_def)
  then have "rtranclp (gui_step ws0) ?g (gui0 False (pool0 1 [?b] [?a] [] []))"
    by (simp add: gui0_stop)
  with gui0_before_stop gui0_after_stop gui0_to_the_end
  have run: "rtranclp (gui_step ws0) (start_check ?idle (ustr ''www.google.com'') 2 1 two_proxies) ?end"
    by (meson rtranclp_trans)
  have ne: "two_proxies \<noteq> []" by (simp add: two_proxies_def)
  have fin: "pool_final (job ?end)" by (simp add: pool_final_def gui0_def pool0_def)
  note T = stop_check_leaves_batch_running [of ?g ws0 ?p "gui0 False ?p" two_proxies ?idle
        "ustr ''www.google.com''" 2 1 ?end]
  from T ps' have "gui_step ws0 (stop_check ?g) ((stop_check ?g)\<lparr>job := ?p\<rparr>)" by blast
  then have gs: "gui_step ws0 (gui0 False (pool0 1 [?b] [?a] [] [])) (gui0 False ?p)"
    unfolding gui0_stop gui0_job_update .
  from T ne run fin have "length (results (job ?end)) = length two_proxies
      \<and> mset (map (\<lambda>r. (proxy r, protocol r)) (results (job ?end))) = mset two_proxies"
    by blast
  with ps gs ne run fin show ?thesis by blast
qed

section \<open>Properties of parse_proxies\<close>

lemma startswith_iff: "startswith s l = (\<exists>s'. s = l @ s')"
  unfolding startswith_def by (metis append_eq_conv_conj append_take_drop_id)

lemma startswith_drop: "startswith s l \<Longrightarrow> l @ drop (length l) s = s"
  unfolding startswith_def by (metis append_take_drop_id)

lemma set_plus_rests:
  "set (plus_rests P s) = {s'. \<exists>p. p \<noteq> [] \<and> (\<forall>x \<in> set p. P x) \<and> s = p @ s'}"
proof (induction s)
  case Nil
  show ?case by simp
next
  case (Cons c cs)
  show ?case
  proof (cases "P c")
    case False
    then show ?thesis by (auto simp add: Cons_eq_append_conv)
  next
    case True
    have "{s'. \<exists>p. p \<noteq> [] \<and> (\<forall>x \<in> set p. P x) \<and> c # cs = p @ s'}
        = insert cs {s'. \<exists>p. p \<noteq> [] \<and> (\<forall>x \<in> set p. P x) \<and> cs = p @ s'}" (is "?L = ?R")
    proof (intro set_eqI iffI)
      fix s' assume "s' \<in> ?L"
      then obtain p where p: "p \<noteq> []" "\<forall>x \<in> set p. P x" "c # cs = p @ s'" by blast
      then obtain q where q: "p = c # q" "cs = q @ s'" by (cases p) auto
      show "s' \<in> ?R"
      proof (cases "q = []")
        case True
        with q show ?thesis by simp
      next
        case False
        with p q show ?thesis by auto
      qed
    next
      fix s' assume "s' \<in> ?R"
      then show "s' \<in> ?L"
      proof
        assume "s' = cs"
        then have "[c] \<noteq> [] \<and> (\<forall>x \<in> set [c]. P x) \<and> c # cs = [c] @ s'" using True by simp
        then show ?thesis by blast
      next
        assume "s' \<in> {s'. \<exists>p. p \<noteq> [] \<and> (\<forall>x \<in> set p. P x) \<and> cs = p @ s'}"
        then obtain p where "p \<noteq> []" "\<forall>x \<in> set p. P x" "cs = p @ s'" by blast
        then have "c # p \<noteq> [] \<and> (\<forall>x \<in> set (c # p). P x) \<and> c # cs = (c # p) @ s'"
          using True by simp
        then show ?thesis by blast
      qed
    qed
    with True Cons show ?thesis by simp
  qed
qed

lemma rmatch_lang: "fst ` set (rmatch r s g) = {s'. \<exists>p \<in> lang r. s = p @ s'}"
proof (induction r arbitrary: s g)
  case (Lit l)
  show ?case by (auto simp add: startswith_iff)
next
  case (Plus c)
  have "fst ` set (rmatch (Plus c) s g) = set (plus_rests (cmatch c) s)"
    by (simp add: image_image)
  then show ?case by (simp add: set_plus_rests)
next
  case (Seq a b)
  have "fst ` set (rmatch (Seq a b) s g)
      = (\<Union>(s1, g1) \<in> set (rmatch a s g). fst ` set (rmatch b s1 g1))"
    by (auto simp add: image_iff)
  also have "\<dots> = (\<Union>(s1, g1) \<in> set (rmatch a s g). {s'. \<exists>q \<in> lang b. s1 = q @ s'})"
    using Seq.IH(2) by simp
  also have "\<dots> = (\<Union>s1 \<in> fst ` set (rmatch a s g). {s'. \<exists>q \<in> lang b. s1 = q @ s'})"
    by force
  also have "\<dots> = (\<Union>s1 \<in> {s'. \<exists>p \<in> lang a. s = p @ s'}. {s'. \<exists>q \<in> lang b. s1 = q @ s'})"
    using Seq.IH(1) by simp
  also have "\<dots> = {s'. \<exists>p \<in> lang (Seq a b). s = p @ s'}"
  proof (intro set_eqI iffI)
    fix x assume "x \<in> (\<Union>s1 \<in> {s'. \<exists>p \<in> lang a. s = p @ s'}. {s'. \<exists>q \<in> lang b. s1 = q @ s'})"
    then obtain p q where "p \<in> lang a" "q \<in> lang b" "s = p @ q @ x" by auto
    then have "p @ q \<in> lang (Seq a b) \<and> s = (p @ q) @ x" by auto
    then show "x \<in> {s'. \<exists>p \<in> lang (Seq a b). s = p @ s'}" by blast
  next
    fix x assume "x \<in> {s'. \<exists>p \<in> lang (Seq a b). s = p @ s'}"
    then obtain u v where uv: "u \<in> lang a" "v \<in> lang b" "s = u @ v @ x" by auto
    then have "v @ x \<in> {s'. \<exists>p \<in> lang a. s = p @ s'}" "x \<in> {s'. \<exists>q \<in> lang b. v @ x = q @ s'}"
      by auto
    then show "x \<in> (\<Union>s1 \<in> {s'. \<exists>p \<in> lang a. s = p @ s'}. {s'. \<exists>q \<in> lang b. s1 = q @ s'})"
      by blast
  qed
  finally show ?case .
next
  case (Alt a b)
  have "fst ` set (rmatch (Alt a b) s g) = fst ` set (rmatch a s g) \<union> fst ` set (rmatch b s g)"
    by (simp add: image_Un)
  then show ?case using Alt.IH by auto
next
  case (Opt a)
  have "fst ` set (rmatch (Opt a) s g) = insert s (fst ` set (rmatch a s g))"
    by simp
  then show ?case using Opt.IH by auto
next
  case (Group n a)
  have "fst ` set (rmatch (Group n a) s g) = fst ` set (rmatch a s g)"
    by (force simp add: image_iff)
  then show ?case using Group.IH by simp
qed

lemma re_match_iff: "(re_match r s \<noteq> None) = matches_prefix r s"
proof -
  have "(rmatch r s [] \<noteq> []) = (fst ` set (rmatch r s []) \<noteq> {})" by simp
  also have "\<dots> = (\<exists>p \<in> lang r. \<exists>s'. s = p @ s')" unfolding rmatch_lang by blast
  also have "\<dots> = matches_prefix r s" by (auto simp add: matches_prefix_def prefix_def)
  finally have "(rmatch r s [] \<noteq> []) = matches_prefix r s" .
  then show ?thesis by (cases "rmatch r s []") (auto simp add: re_match_def)
qed

lemma rmatch_rest:
  assumes "(s', g') \<in> set (rmatch r s g)"
  shows "take (length s - length s') s @ s' = s" and "set s' \<subseteq> set s"
proof -
  from assms have "s' \<in> fst ` set (rmatch r s g)" by force
  then obtain p where "s = p @ s'" unfolding rmatch_lang by blast
  then show "take (length s - length s') s @ s' = s" and "set s' \<subseteq> set s" by auto
qed

lemma hd_concat_map:
  assumes "\<forall>x \<in> set xs. f x \<noteq> [] \<longrightarrow> Q (hd (f x))" and "\<exists>x \<in> set xs. f x \<noteq> []"
  shows "concat (map f xs) \<noteq> [] \<and> Q (hd (concat (map f xs)))"
  using assms
proof (induction xs)
  case Nil
  then show ?case by simp
next
  case (Cons x xs)
  show ?case
  proof (cases "f x = []")
    case True
    with Cons show ?thesis by simp
  next
    case False
    with Cons.prems(1) show ?thesis by simp
  qed
qed

lemma plus_rests_all:
  "s \<noteq> [] \<Longrightarrow> \<forall>x \<in> set s. P x \<Longrightarrow> \<exists>ys. plus_rests P s = [] # ys"
proof (induction s)
  case Nil
  then show ?case by simp
next
  case (Cons c cs)
  show ?case
  proof (cases "cs = []")
    case True
    with Cons.prems show ?thesis by simp
  next
    case False
    with Cons obtain ys where "plus_rests P cs = [] # ys" by auto
    with Cons.prems show ?thesis by simp
  qed
qed

lemma group3_head:
  assumes "s \<noteq> []" and "10 \<notin> set s"
  shows "\<exists>ys. rmatch (Group 3 (Plus Dot)) s g = ([], (3, s) # g) # ys"
proof -
  have "\<forall>x \<in> set s. cmatch Dot x" using assms(2) by auto
  with assms(1) obtain ys where "plus_rests (cmatch Dot) s = [] # ys"
    using plus_rests_all by blast
  then show ?thesis by simp
qed

lemma auth_groups:
  "(s', g') \<in> set (rmatch (Seq (Plus c) (Lit l)) s g) \<Longrightarrow> g' = g"
  by (auto split: if_splits)

lemma tail_nil: "rmatch re_tail [] g = []"
  by (simp add: re_tail_def)

lemma tail_head:
  assumes "rest \<noteq> []" and "10 \<notin> set rest" and "group g 2 = None"
  shows "rmatch re_tail rest g \<noteq> [] \<and> whole_endpoint g rest (hd (rmatch re_tail rest g))"
proof -
  let ?auth = "Seq (Plus (NoneOf [Ch 64])) (Lit (ustr ''@''))"
  let ?L = "rmatch (Opt (Group 2 ?auth)) rest g"
  let ?f = "\<lambda>(s1, g1). rmatch (Group 3 (Plus Dot)) s1 g1"
  have eq: "rmatch re_tail rest g = concat (map ?f ?L)"
    unfolding re_tail_def by (subst rmatch.simps(3)) (rule refl)
  have each: "?f x \<noteq> [] \<longrightarrow> whole_endpoint g rest (hd (?f x))" if x: "x \<in> set ?L" for x
  proof
    obtain s1 g1 where x1: "x = (s1, g1)" by (cases x)
    assume ne: "?f x \<noteq> []"
    have s1: "s1 \<noteq> []" using ne x1 by (cases s1) auto
    from x x1 have "(s1, g1) \<in> set (rmatch (Group 2 ?auth) rest g) \<or> (s1 = rest \<and> g1 = g)"
      by auto
    then show "whole_endpoint g rest (hd (?f x))"
    proof
      assume "s1 = rest \<and> g1 = g"
      moreover obtain ys where "rmatch (Group 3 (Plus Dot)) rest g = ([], (3, rest) # g) # ys"
        using group3_head [OF assms(1,2)] by blast
      ultimately show ?thesis using x1 assms(3)
        by (simp add: whole_endpoint_def group_def)
    next
      assume "(s1, g1) \<in> set (rmatch (Group 2 ?auth) rest g)"
      then obtain g0 where m: "(s1, g0) \<in> set (rmatch ?auth rest g)"
          and g1: "g1 = (2, take (length rest - length s1) rest) # g0"
        by auto
      have "g0 = g" using m by (rule auth_groups)
      have r: "take (length rest - length s1) rest @ s1 = rest" "set s1 \<subseteq> set rest"
        using rmatch_rest [OF m] by simp_all
      then have "10 \<notin> set s1" using assms(2) by blast
      with s1 obtain ys where "rmatch (Group 3 (Plus Dot)) s1 g1 = ([], (3, s1) # g1) # ys"
        using group3_head by blast
      then show ?thesis using x1 g1 \<open>g0 = g\<close> r(1)
        by (simp add: whole_endpoint_def group_def)
    qed
  qed
  have "(rest, g) \<in> set ?L" by simp
  moreover have "?f (rest, g) \<noteq> []" using group3_head [OF assms(1,2), of g] by auto
  ultimately have ex: "\<exists>x \<in> set ?L. ?f x \<noteq> []" by blast
  from each have "\<forall>x \<in> set ?L. ?f x \<noteq> [] \<longrightarrow> whole_endpoint g rest (hd (?f x))" by blast
  from hd_concat_map [of ?L ?f "whole_endpoint g rest", OF this ex] show ?thesis
    unfolding eq .
qed

lemma group1_matches:
  assumes "(s1, g1) \<in> set (rmatch (Group 1 (Alt (Lit (ustr ''http''))
      (Alt (Lit (ustr ''https'')) (Lit (ustr ''socks5''))))) line [])"
  shows "\<exists>p \<in> protos. line = p @ s1 \<and> g1 = [(1, p)]"
proof -
  let ?alt = "Alt (Lit (ustr ''http'')) (Alt (Lit (ustr ''https'')) (Lit (ustr ''socks5'')))"
  define X where "X = rmatch ?alt line []"
  from assms
  have "(s1, g1) \<in> set (map (\<lambda>(s', g'). (s', (1, take (length line - length s') line) # g')) X)"
    unfolding X_def by (simp only: rmatch.simps(6))
  then obtain g0 where m: "(s1, g0) \<in> set X"
      and g1: "g1 = (1, take (length line - length s1) line) # g0"
    by auto
  have X: "X = (if startswith line (ustr ''http'') then [(drop (length (ustr ''http'')) line, [])] else [])
      @ (if startswith line (ustr ''https'') then [(drop (length (ustr ''https'')) line, [])] else [])
      @ (if startswith line (ustr ''socks5'') then [(drop (length (ustr ''socks5'')) line, [])] else [])"
    unfolding X_def by simp
  have "\<exists>p \<in> protos. startswith line p \<and> s1 = drop (length p) line \<and> g0 = []"
  proof -
    from m have "(s1, g0) \<in> set (if startswith line (ustr ''http'') then [(drop (length (ustr ''http'')) line, [])] else [])
      \<or> (s1, g0) \<in> set (if startswith line (ustr ''https'') then [(drop (length (ustr ''https'')) line, [])] else [])
      \<or> (s1, g0) \<in> set (if startswith line (ustr ''socks5'') then [(drop (length (ustr ''socks5'')) line, [])] else [])"
      unfolding X by simp
    then show ?thesis
    proof (elim disjE)
      assume "(s1, g0) \<in> set (if startswith line (ustr ''http'') then [(drop (length (ustr ''http'')) line, [])] else [])"
      then have "startswith line (ustr ''http'') \<and> s1 = drop (length (ustr ''http'')) line \<and> g0 = []"
        by (simp split: if_splits)
      moreover have "ustr ''http'' \<in> protos" by (simp add: protos_def)
      ultimately show ?thesis by blast
    next
      assume "(s1, g0) \<in> set (if startswith line (ustr ''https'') then [(drop (length (ustr ''https'')) line, [])] else [])"
      then have "startswith line (ustr ''https'') \<and> s1 = drop (length (ustr ''https'')) line \<and> g0 = []"
        by (simp split: if_splits)
      moreover have "ustr ''https'' \<in> protos" by (simp add: protos_def)
      ultimately show ?thesis by blast
    next
      assume "(s1, g0) \<in> set (if startswith line (ustr ''socks5'') then [(drop (length (ustr ''socks5'')) line, [])] else [])"
      then have "startswith line (ustr ''socks5'') \<and> s1 = drop (length (ustr ''socks5'')) line \<and> g0 = []"
        by (simp split: if_splits)
      moreover have "ustr ''socks5'' \<in> protos" by (simp add: protos_def)
      ultimately show ?thesis by blast
    qed
  qed
  then obtain p where p: "p \<in> protos" "startswith line p" "s1 = drop (length p) line" "g0 = []"
    by blast
  from p(2) have l: "p @ s1 = line" unfolding p(3) by (rule startswith_drop)
  then have "length line - length s1 = length p" by (metis add_diff_cancel_right' length_append)
  then have "take (length line - length s1) line = p" using l by (metis append_eq_conv_conj)
  with p l g1 show ?thesis by auto
qed

lemma concat_map_nonempty: "concat (map f xs) \<noteq> [] \<Longrightarrow> \<exists>x \<in> set xs. f x \<noteq> []"
  by (induction xs) auto

lemma scheme_head:
  assumes "10 \<notin> set line" and "rmatch re_scheme line [] \<noteq> []"
  shows "scheme_found line (hd (rmatch re_scheme line []))"
proof -
  let ?g1 = "Group 1 (Alt (Lit (ustr ''http'')) (Alt (Lit (ustr ''https'')) (Lit (ustr ''socks5''))))"
  let ?R = "rmatch ?g1 line []"
  let ?F = "\<lambda>(s1, g1). rmatch (Seq (Lit (ustr ''://'')) re_tail) s1 g1"
  have eq: "rmatch re_scheme line [] = concat (map ?F ?R)"
    unfolding re_scheme_def re_tail_def by (subst rmatch.simps(3)) (rule refl)
  have each: "?F x \<noteq> [] \<longrightarrow> scheme_found line (hd (?F x))" if x: "x \<in> set ?R" for x
  proof
    obtain s1 g1 where x1: "x = (s1, g1)" by (cases x)
    assume ne: "?F x \<noteq> []"
    from x x1 obtain p where p: "p \<in> protos" "line = p @ s1" "g1 = [(1, p)]"
      using group1_matches by blast
    have l3: "length (ustr ''://'') = 3" by (simp add: ustr_def)
    have F: "?F x = (if startswith s1 (ustr ''://'') then rmatch re_tail (drop 3 s1) g1 else [])"
      using x1 by (simp add: l3)
    with ne have sw: "startswith s1 (ustr ''://'')" by (simp split: if_splits)
    have s1: "ustr ''://'' @ drop 3 s1 = s1"
      using startswith_drop [OF sw] unfolding l3 .
    from F sw ne have t: "rmatch re_tail (drop 3 s1) g1 \<noteq> []" by simp
    then have r: "drop 3 s1 \<noteq> []" using tail_nil by metis
    have "set (drop 3 s1) \<subseteq> set line" using p(2) by (auto dest: in_set_dropD)
    then have nl: "10 \<notin> set (drop 3 s1)" using assms(1) by blast
    have "group g1 2 = None" using p(3) by (simp add: group_def)
    from tail_head [OF r nl this]
    have "whole_endpoint g1 (drop 3 s1) (hd (rmatch re_tail (drop 3 s1) g1))" by (rule conjunct2)
    then have w: "whole_endpoint [(1, p)] (drop 3 s1) (hd (rmatch re_tail (drop 3 s1) g1))"
      unfolding p(3) .
    have hdF: "hd (?F x) = hd (rmatch re_tail (drop 3 s1) g1)"
      by (simp only: F sw if_True)
    have "line = p @ ustr ''://'' @ drop 3 s1" using p(2) s1 by metis
    with w r p(1) show "scheme_found line (hd (?F x))"
      unfolding hdF scheme_found_def by blast
  qed
  from assms(2) have "concat (map ?F ?R) \<noteq> []" unfolding eq .
  then have ex: "\<exists>x \<in> set ?R. ?F x \<noteq> []" by (rule concat_map_nonempty)
  from each have "\<forall>x \<in> set ?R. ?F x \<noteq> [] \<longrightarrow> scheme_found line (hd (?F x))" by blast
  from hd_concat_map [of ?R ?F "scheme_found line", OF this ex] show ?thesis
    unfolding eq by (rule conjunct2)
qed

lemma scheme_match_Some:
  assumes "10 \<notin> set line" and "re_match re_scheme line = Some m"
  shows "\<exists>p \<in> protos. \<exists>rest x. line = p @ ustr ''://'' @ rest \<and> rest \<noteq> []
      \<and> group m 1 = Some p \<and> group m 3 = Some x
      \<and> (case group m 2 of None \<Rightarrow> [] | Some a \<Rightarrow> a) @ x = rest"
proof -
  from assms(2) obtain s' ms where h: "rmatch re_scheme line [] = (s', m) # ms"
    by (auto simp add: re_match_def split: list.splits)
  then have "scheme_found line (s', m)" using scheme_head [OF assms(1)] by force
  then show ?thesis
    by (auto simp add: scheme_found_def whole_endpoint_def group_def)
qed

lemma scheme_split_intro:
  "p \<in> protos \<Longrightarrow> rest \<noteq> [] \<Longrightarrow> scheme_split (p @ ustr ''://'' @ rest) = Some (p, rest)"
  by (auto simp add: protos_def scheme_split_def startswith_def ustr_def)

lemma scheme_split_elim:
  assumes "scheme_split line = Some (p, rest)"
  shows "p \<in> protos \<and> rest \<noteq> [] \<and> line = p @ ustr ''://'' @ rest"
proof -
  have "startswith line (ustr ''http://'') \<and> 7 < length line \<and> p = ustr ''http'' \<and> rest = drop 7 line
      \<or> startswith line (ustr ''https://'') \<and> 8 < length line \<and> p = ustr ''https'' \<and> rest = drop 8 line
      \<or> startswith line (ustr ''socks5://'') \<and> 9 < length line \<and> p = ustr ''socks5'' \<and> rest = drop 9 line"
    using assms by (simp add: scheme_split_def split: if_splits)
  then show ?thesis
  proof (elim disjE conjE)
    assume a: "startswith line (ustr ''http://'')" "7 < length line" "p = ustr ''http''" "rest = drop 7 line"
    have len: "length (ustr ''http://'') = 7" by (simp add: ustr_def)
    have cat: "ustr ''http://'' = ustr ''http'' @ ustr ''://''" by (simp add: ustr_def)
    have "ustr ''http://'' @ drop 7 line = line" using startswith_drop [OF a(1)] unfolding len .
    then have "line = p @ ustr ''://'' @ rest" unfolding cat a(3,4) by simp
    moreover have "rest \<noteq> []" using a(2,4) by simp
    moreover have "p \<in> protos" using a(3) by (simp add: protos_def)
    ultimately show ?thesis by blast
  next
    assume a: "startswith line (ustr ''https://'')" "8 < length line" "p = ustr ''https''" "rest = drop 8 line"
    have len: "length (ustr ''https://'') = 8" by (simp add: ustr_def)
    have cat: "ustr ''https://'' = ustr ''https'' @ ustr ''://''" by (simp add: ustr_def)
    have "ustr ''https://'' @ drop 8 line = line" using startswith_drop [OF a(1)] unfolding len .
    then have "line = p @ ustr ''://'' @ rest" unfolding cat a(3,4) by simp
    moreover have "rest \<noteq> []" using a(2,4) by simp
    moreover have "p \<in> protos" using a(3) by (simp add: protos_def)
    ultimately show ?thesis by blast
  next
    assume a: "startswith line (ustr ''socks5://'')" "9 < length line" "p = ustr ''socks5''" "rest = drop 9 line"
    have len: "length (ustr ''socks5://'') = 9" by (simp add: ustr_def)
    have cat: "ustr ''socks5://'' = ustr ''socks5'' @ ustr ''://''" by (simp add: ustr_def)
    have "ustr ''socks5://'' @ drop 9 line = line" using startswith_drop [OF a(1)] unfolding len .
    then have "line = p @ ustr ''://'' @ rest" unfolding cat a(3,4) by simp
    moreover have "rest \<noteq> []" using a(2,4) by simp
    moreover have "p \<in> protos" using a(3) by (simp add: protos_def)
    ultimately show ?thesis by blast
  qed
qed

lemma lang_SeqI: "u \<in> lang a \<Longrightarrow> v \<in> lang b \<Longrightarrow> u @ v \<in> lang (Seq a b)"
  by auto

lemma scheme_lang:
  assumes "p \<in> protos" and "rest \<noteq> []" and "10 \<notin> set rest"
  shows "p @ ustr ''://'' @ rest \<in> lang re_scheme"
proof -
  have 1: "p \<in> lang (Group 1 (Alt (Lit (ustr ''http'')) (Alt (Lit (ustr ''https'')) (Lit (ustr ''socks5'')))))"
    using assms(1) by (auto simp add: protos_def)
  have 3: "rest \<in> lang (Group 3 (Plus Dot))" using assms(2,3) by auto
  have 2: "[] @ rest \<in> lang (Seq (Opt (Group 2 (Seq (Plus (NoneOf [Ch 64])) (Lit (ustr ''@''))))) (Group 3 (Plus Dot)))"
    using 3 by (intro lang_SeqI) simp_all
  have "ustr ''://'' \<in> lang (Lit (ustr ''://''))" by simp
  from lang_SeqI [OF 1 lang_SeqI [OF this 2]] show ?thesis by (simp add: re_scheme_def)
qed

lemma set_py_strip: "set (py_strip s) \<subseteq> set s"
proof -
  have "set (py_strip s) \<subseteq> set (dropWhile is_space s)"
    unfolding py_strip_def by (auto dest: set_dropWhileD)
  then show ?thesis by (auto dest: set_dropWhileD)
qed

lemma parse_line_spec:
  assumes "10 \<notin> set raw"
  shows "parse_line raw = Inr (classify_spec raw)"
proof -
  let ?line = "py_strip raw"
  have nl: "10 \<notin> set ?line" using assms set_py_strip by blast
  show ?thesis
  proof (cases "?line = [] \<or> startswith ?line (ustr ''#'')")
    case True
    then show ?thesis by (auto simp add: parse_line_def classify_spec_def)
  next
    case False
    show ?thesis
    proof (cases "re_match re_scheme ?line")
      case None
      have "scheme_split ?line = None"
      proof (rule ccontr)
        assume "scheme_split ?line \<noteq> None"
        then obtain p rest where "scheme_split ?line = Some (p, rest)" by auto
        from scheme_split_elim [OF this] have e: "p \<in> protos" "rest \<noteq> []"
            "?line = p @ ustr ''://'' @ rest" by simp_all
        have "10 \<notin> set rest" using nl by (subst (asm) e(3)) simp
        from scheme_lang [OF e(1,2) this] have "matches_prefix re_scheme ?line"
          unfolding matches_prefix_def using e(3) by (metis prefix_order.order_refl)
        then show False using None re_match_iff by blast
      qed
      then have c: "classify_spec raw =
          (if matches_prefix re_auth ?line then [(?line, ustr ''http'')]
           else if matches_prefix re_bare ?line then [(?line, ustr ''http'')] else [])"
        using False by (simp add: classify_spec_def Let_def)
      have "parse_line raw =
          (if re_match re_auth ?line \<noteq> None then Inr [(?line, ustr ''http'')]
           else if re_match re_bare ?line \<noteq> None then Inr [(?line, ustr ''http'')] else Inr [])"
        using None False by (simp add: parse_line_def Let_def del: not_None_eq)
      then show ?thesis unfolding re_match_iff c by simp
    next
      case (Some m)
      from scheme_match_Some [OF nl Some] obtain p rest x where
        m: "p \<in> protos" "?line = p @ ustr ''://'' @ rest" "rest \<noteq> []"
           "group m 1 = Some p" "group m 3 = Some x"
           "(case group m 2 of None \<Rightarrow> [] | Some a \<Rightarrow> a) @ x = rest"
        by blast
      have "scheme_split ?line = Some (p, rest)"
        using scheme_split_intro [OF m(1,3)] m(2) by simp
      with Some False m(4,5,6) show ?thesis
        by (simp add: parse_line_def classify_spec_def)
    qed
  qed
qed

lemma is_digit_ascii: "c < 1632 \<Longrightarrow> is_digit c = (48 \<le> c \<and> c \<le> 57)"
  by (auto simp add: is_digit_def digit_starts_def)

lemma split_nl_nonempty: "split_nl s \<noteq> []"
  by (induction s) (auto split: list.splits)

lemma split_nl_no_nl: "l \<in> set (split_nl s) \<Longrightarrow> 10 \<notin> set l"
proof (induction s arbitrary: l)
  case Nil
  then show ?case by simp
next
  case (Cons c cs)
  show ?case
  proof (cases "c = 10")
    case True
    with Cons show ?thesis by auto
  next
    case False
    obtain x xs where x: "split_nl cs = x # xs" using split_nl_nonempty [of cs] by (cases "split_nl cs") auto
    with Cons.prems False have "l = c # x \<or> l \<in> set xs" by simp
    then show ?thesis
    proof
      assume "l = c # x"
      moreover have "10 \<notin> set x" using Cons.IH [of x] x by simp
      ultimately show ?thesis using False by simp
    next
      assume "l \<in> set xs"
      then show ?thesis using Cons.IH [of l] x by simp
    qed
  qed
qed

lemma parse_lines_spec:
  "\<forall>l \<in> set ls. 10 \<notin> set l \<Longrightarrow> parse_lines ls acc = Inr (acc @ concat (map classify_spec ls))"
  by (induction ls arbitrary: acc) (simp_all add: parse_line_spec)

lemma split_nl_single: "10 \<notin> set s \<Longrightarrow> split_nl s = [s]"
  by (induction s) auto

lemma py_strip_idem: "py_strip (py_strip s) = py_strip s"
proof -
  define t where "t = dropWhile is_space s"
  define u where "u = rev (dropWhile is_space (rev t))"
  have u: "py_strip s = u" by (simp add: py_strip_def t_def u_def)
  have "rev t = takeWhile is_space (rev t) @ dropWhile is_space (rev t)" by simp
  then have "t = u @ rev (takeWhile is_space (rev t))"
    unfolding u_def by (metis rev_append rev_rev_ident)
  then obtain w where tw: "t = u @ w" ..
  have 1: "dropWhile is_space u = u"
  proof (cases u)
    case Nil
    then show ?thesis by simp
  next
    case (Cons c cs)
    with tw have "t = c # cs @ w" by simp
    then have "\<not> is_space c" unfolding t_def by (metis hd_dropWhile list.sel(1) list.simps(3))
    with Cons show ?thesis by simp
  qed
  have 2: "dropWhile is_space (rev u) = rev u"
    unfolding u_def by (simp add: dropWhile_idem)
  show ?thesis unfolding u by (simp add: py_strip_def 1 2)
qed

lemma bare_first_char:
  assumes "matches_prefix re_bare s"
  shows "\<exists>c cs. s = c # cs \<and> (is_digit c \<or> c = 46)"
proof -
  from assms obtain p where p: "p \<in> lang re_bare" "prefix p s" unfolding matches_prefix_def by blast
  from p(1) obtain u v where "p = u @ v" "u \<in> lang (Plus (OneOf [Digit, Ch 46]))"
    unfolding re_bare_def by auto
  then obtain c u' where "u = c # u'" "is_digit c \<or> c = 46" by (cases u) auto
  with \<open>p = u @ v\<close> p(2) show ?thesis by (auto simp add: prefix_def)
qed

lemma bare_not_scheme:
  assumes "matches_prefix re_bare s"
  shows "scheme_split s = None" and "s \<noteq> []" and "\<not> startswith s (ustr ''#'')"
proof -
  from bare_first_char [OF assms] obtain c cs where s: "s = c # cs" "is_digit c \<or> c = 46" by blast
  have "\<not> is_digit 104" "\<not> is_digit 115" "\<not> is_digit 35" by (simp_all add: is_digit_ascii)
  with s have c: "c \<noteq> 104" "c \<noteq> 115" "c \<noteq> 35" by auto
  show "s \<noteq> []" using s by simp
  show "\<not> startswith s (ustr ''#'')" using s c by (simp add: startswith_def ustr_def)
  show "scheme_split s = None" using s c by (simp add: scheme_split_def startswith_def ustr_def)
qed

lemma scheme_prefix_split:
  assumes "10 \<notin> set s" and "matches_prefix re_scheme s"
  shows "\<exists>p \<in> protos. \<exists>e. e \<noteq> [] \<and> s = p @ ustr ''://'' @ e \<and> scheme_split s = Some (p, e)"
proof -
  from assms(2) obtain m where "re_match re_scheme s = Some m"
    using re_match_iff [of re_scheme s] by auto
  from scheme_match_Some [OF assms(1) this] obtain p rest where
    "p \<in> protos" "s = p @ ustr ''://'' @ rest" "rest \<noteq> []" by blast
  then show ?thesis using scheme_split_intro [of p rest] by auto
qed

lemma scheme_split_prefix:
  assumes "10 \<notin> set s" and "scheme_split s = Some (p, e)"
  shows "matches_prefix re_scheme s"
proof -
  from scheme_split_elim [OF assms(2)] have e: "p \<in> protos" "e \<noteq> []" "s = p @ ustr ''://'' @ e"
    by simp_all
  have "10 \<notin> set e" using assms(1) by (subst (asm) e(3)) simp
  from scheme_lang [OF e(1,2) this] show ?thesis
    unfolding matches_prefix_def using e(3) by (metis prefix_order.order_refl)
qed

lemma parse_proxies_single:
  assumes "10 \<notin> set raw"
  shows "parse_proxies raw = parse_line raw"
proof -
  have nl: "10 \<notin> set (py_strip raw)" using assms set_py_strip by blast
  have "parse_line (py_strip raw) = parse_line raw"
    by (simp add: parse_line_def py_strip_idem)
  moreover have "parse_proxies raw = parse_lines [py_strip raw] []"
    by (simp add: parse_proxies_def split_nl_single [OF nl])
  ultimately show ?thesis by (simp split: sum.splits)
qed

lemma scheme_not_comment:
  assumes "scheme_split s = Some (p, e)"
  shows "s \<noteq> []" and "\<not> startswith s (ustr ''#'')"
proof -
  from scheme_split_elim [OF assms] have "p \<in> protos" "s = p @ ustr ''://'' @ e" by simp_all
  then have "\<exists>c cs. s = c # cs \<and> (c = 104 \<or> c = 115)"
    by (auto simp add: protos_def ustr_def)
  then show "s \<noteq> []" and "\<not> startswith s (ustr ''#'')"
    by (auto simp add: startswith_def ustr_def)
qed

text \<open>
  C8. For every text, \<open>parse_proxies\<close> raises nothing and returns, line by line in
  the order of the text, what the input grammar says of each line after \<open>strip()\<close>:
  nothing for a blank line or a line that starts with \<open>#\<close>; for
  \<open>protocol://endpoint\<close> with a protocol among \<open>http\<close>, \<open>https\<close>, \<open>socks5\<close>
  the pair of the endpoint and the protocol; otherwise the line with the protocol
  \<open>http\<close> when a prefix of it matches \<open>user:pass@ip:port\<close> or \<open>ip:port\<close>; and
  nothing for any other line.
\<close>

theorem parse_proxies_classifies:
  "parse_proxies text = Inr (concat (map classify_spec (split_nl (py_strip text))))"
  using parse_lines_spec [of "split_nl (py_strip text)" "[]"] split_nl_no_nl
  by (simp add: parse_proxies_def)

theorem parse_proxies_classifies_witness:
  "parse_proxies proxy_text =
     Inr [(ustr ''user:pw@10.0.0.1:1080'', ustr ''socks5''), (ustr ''10.0.0.1:8080'', ustr ''http'')]
   \<and> split_nl (py_strip proxy_text) =
       [ustr ''socks5://user:pw@10.0.0.1:1080'', ustr ''10.0.0.1:8080'', ustr ''# note'',
        ustr ''not a proxy'']
   \<and> classify_spec (ustr ''socks5://user:pw@10.0.0.1:1080'') =
       [(ustr ''user:pw@10.0.0.1:1080'', ustr ''socks5'')]
   \<and> classify_spec (ustr ''10.0.0.1:8080'') = [(ustr ''10.0.0.1:8080'', ustr ''http'')]
   \<and> classify_spec (ustr ''# note'') = []
   \<and> classify_spec (ustr ''not a proxy'') = []"
proof -
  have l: "split_nl (py_strip proxy_text) =
       [ustr ''socks5://user:pw@10.0.0.1:1080'', ustr ''10.0.0.1:8080'', ustr ''# note'',
        ustr ''not a proxy'']"
    by (simp add: proxy_text_def py_strip_def is_space_def ustr_def)
  have 1: "classify_spec (ustr ''socks5://user:pw@10.0.0.1:1080'') =
       [(ustr ''user:pw@10.0.0.1:1080'', ustr ''socks5'')]"
    by (simp add: classify_spec_def scheme_split_def py_strip_def is_space_def startswith_def ustr_def)
  have 2: "classify_spec (ustr ''10.0.0.1:8080'') = [(ustr ''10.0.0.1:8080'', ustr ''http'')]"
    by (simp add: classify_spec_def scheme_split_def py_strip_def is_space_def startswith_def
        re_match_iff [symmetric] re_match_def re_bare_def re_auth_def is_digit_ascii ustr_def
        del: not_None_eq)
  have 3: "classify_spec (ustr ''# note'') = []"
    by (simp add: classify_spec_def py_strip_def is_space_def startswith_def ustr_def)
  have 4: "classify_spec (ustr ''not a proxy'') = []"
    by (simp add: classify_spec_def scheme_split_def py_strip_def is_space_def startswith_def
        re_match_iff [symmetric] re_match_def re_bare_def re_auth_def is_digit_ascii ustr_def
        del: not_None_eq)
  show ?thesis
    using parse_proxies_classifies [of proxy_text] by (simp add: l 1 2 3 4)
qed

text \<open>
  C10. Acceptance looks at a prefix of the line only. For a line without line feed,
  taken after \<open>strip()\<close>, that is no comment: when a prefix of it matches the first
  pattern, the line is \<open>protocol://endpoint\<close> and gives the whole endpoint up to the end
  of the line; when a prefix of it matches the second or the third pattern (and none the
  first), it gives the whole line with the protocol \<open>http\<close>, whatever follows the
  matched prefix. A line with a prefix \<open>ip:port\<close> is never a comment and never of the
  first form.
\<close>

theorem parse_line_accepts_on_prefix:
  "(10 \<notin> set raw1 \<and> matches_prefix re_scheme (py_strip raw1) \<longrightarrow>
      (\<exists>p \<in> protos. \<exists>e. e \<noteq> [] \<and> py_strip raw1 = p @ ustr ''://'' @ e
          \<and> parse_line raw1 = Inr [(e, p)] \<and> parse_proxies raw1 = Inr [(e, p)]))
   \<and> (10 \<notin> set raw2 \<and> py_strip raw2 \<noteq> [] \<and> \<not> startswith (py_strip raw2) (ustr ''#'')
        \<and> \<not> matches_prefix re_scheme (py_strip raw2)
        \<and> matches_prefix re_auth (py_strip raw2) \<longrightarrow>
      parse_line raw2 = Inr [(py_strip raw2, ustr ''http'')]
      \<and> parse_proxies raw2 = Inr [(py_strip raw2, ustr ''http'')])
   \<and> (10 \<notin> set raw3 \<and> matches_prefix re_bare (py_strip raw3) \<longrightarrow>
      parse_line raw3 = Inr [(py_strip raw3, ustr ''http'')]
      \<and> parse_proxies raw3 = Inr [(py_strip raw3, ustr ''http'')])"
proof (intro conjI impI)
  assume a: "10 \<notin> set raw1 \<and> matches_prefix re_scheme (py_strip raw1)"
  then have nl: "10 \<notin> set (py_strip raw1)" using set_py_strip by blast
  from scheme_prefix_split [OF nl] a obtain p e where
    pe: "p \<in> protos" "e \<noteq> []" "py_strip raw1 = p @ ustr ''://'' @ e"
        "scheme_split (py_strip raw1) = Some (p, e)" by blast
  from scheme_not_comment [OF pe(4)] pe(4)
  have "classify_spec raw1 = [(e, p)]" by (simp add: classify_spec_def Let_def)
  then have "parse_line raw1 = Inr [(e, p)]" using a parse_line_spec by simp
  moreover have "parse_proxies raw1 = parse_line raw1" using a parse_proxies_single by simp
  ultimately show "\<exists>p \<in> protos. \<exists>e. e \<noteq> [] \<and> py_strip raw1 = p @ ustr ''://'' @ e
          \<and> parse_line raw1 = Inr [(e, p)] \<and> parse_proxies raw1 = Inr [(e, p)]"
    using pe by auto
next
  assume a: "10 \<notin> set raw2 \<and> py_strip raw2 \<noteq> [] \<and> \<not> startswith (py_strip raw2) (ustr ''#'')
        \<and> \<not> matches_prefix re_scheme (py_strip raw2)
        \<and> matches_prefix re_auth (py_strip raw2)"
  then have nl: "10 \<notin> set (py_strip raw2)" using set_py_strip by blast
  have "scheme_split (py_strip raw2) = None"
  proof (cases "scheme_split (py_strip raw2)")
    case None
    then show ?thesis .
  next
    case (Some pe)
    then have "matches_prefix re_scheme (py_strip raw2)"
      using scheme_split_prefix [OF nl, of "fst pe" "snd pe"] by simp
    with a show ?thesis by simp
  qed
  with a have "classify_spec raw2 = [(py_strip raw2, ustr ''http'')]"
    by (simp add: classify_spec_def Let_def)
  then have p: "parse_line raw2 = Inr [(py_strip raw2, ustr ''http'')]"
    using a parse_line_spec by simp
  then show "parse_line raw2 = Inr [(py_strip raw2, ustr ''http'')]" .
  show "parse_proxies raw2 = Inr [(py_strip raw2, ustr ''http'')]"
    using p a parse_proxies_single by simp
next
  assume a: "10 \<notin> set raw3 \<and> matches_prefix re_bare (py_strip raw3)"
  then have b: "matches_prefix re_bare (py_strip raw3)" by simp
  from bare_not_scheme [OF b] b
  have "classify_spec raw3 = [(py_strip raw3, ustr ''http'')]"
    by (simp add: classify_spec_def Let_def)
  then have p: "parse_line raw3 = Inr [(py_strip raw3, ustr ''http'')]"
    using a parse_line_spec by simp
  then show "parse_line raw3 = Inr [(py_strip raw3, ustr ''http'')]" .
  show "parse_proxies raw3 = Inr [(py_strip raw3, ustr ''http'')]"
    using p a parse_proxies_single by simp
qed

theorem parse_line_accepts_on_prefix_witness:
  "10 \<notin> set line_scheme \<and> matches_prefix re_scheme (py_strip line_scheme)
   \<and> parse_proxies line_scheme = Inr [(ustr ''proxy.example:3128 (office)'', ustr ''http'')]
   \<and> 10 \<notin> set line_auth \<and> py_strip line_auth \<noteq> []
   \<and> \<not> startswith (py_strip line_auth) (ustr ''#'')
   \<and> \<not> matches_prefix re_scheme (py_strip line_auth)
   \<and> matches_prefix re_auth (py_strip line_auth)
   \<and> parse_proxies line_auth = Inr [(ustr ''user:pw@10.0.0.1:8080/extra'', ustr ''http'')]
   \<and> 10 \<notin> set line_bare \<and> matches_prefix re_bare (py_strip line_bare)
   \<and> parse_proxies line_bare = Inr [(ustr ''10.0.0.1:8080xyz'', ustr ''http'')]"
proof -
  have s1: "py_strip line_scheme = ustr ''http://proxy.example:3128 (office)''"
    by (simp add: line_scheme_def py_strip_def is_space_def ustr_def)
  have s2: "py_strip line_auth = ustr ''user:pw@10.0.0.1:8080/extra''"
    by (simp add: line_auth_def py_strip_def is_space_def ustr_def)
  have s3: "py_strip line_bare = ustr ''10.0.0.1:8080xyz''"
    by (simp add: line_bare_def py_strip_def is_space_def ustr_def)
  have n: "10 \<notin> set line_scheme" "10 \<notin> set line_auth" "10 \<notin> set line_bare"
    by (simp_all add: line_scheme_def line_auth_def line_bare_def ustr_def)
  have m1: "matches_prefix re_scheme (py_strip line_scheme)"
    unfolding s1 re_match_iff [symmetric]
    by (simp add: re_match_def re_scheme_def startswith_def ustr_def)
  have m2: "\<not> matches_prefix re_scheme (py_strip line_auth)"
    unfolding s2 re_match_iff [symmetric]
    by (simp add: re_match_def re_scheme_def startswith_def ustr_def)
  have m3: "matches_prefix re_auth (py_strip line_auth)"
    unfolding s2 re_match_iff [symmetric]
    by (simp add: re_match_def re_auth_def startswith_def is_digit_ascii ustr_def)
  have m4: "matches_prefix re_bare (py_strip line_bare)"
    unfolding s3 re_match_iff [symmetric]
    by (simp add: re_match_def re_bare_def startswith_def is_digit_ascii ustr_def)
  have c: "py_strip line_auth \<noteq> []" "\<not> startswith (py_strip line_auth) (ustr ''#'')"
    unfolding s2 by (simp_all add: startswith_def ustr_def)
  note T = parse_line_accepts_on_prefix [of line_scheme line_auth line_bare]
  from T n(1) m1 obtain p e where pe: "p \<in> protos" "py_strip line_scheme = p @ ustr ''://'' @ e"
      "parse_proxies line_scheme = Inr [(e, p)]" by blast
  have "p = ustr ''http'' \<and> e = ustr ''proxy.example:3128 (office)''"
    using pe(1,2) unfolding s1 by (auto simp add: protos_def ustr_def)
  with pe(3) have r1: "parse_proxies line_scheme = Inr [(ustr ''proxy.example:3128 (office)'', ustr ''http'')]"
    by simp
  from T n(2) c m2 m3 have r2: "parse_proxies line_auth = Inr [(py_strip line_auth, ustr ''http'')]"
    by blast
  from T n(3) m4 have r3: "parse_proxies line_bare = Inr [(py_strip line_bare, ustr ''http'')]"
    by blast
  from r1 r2 r3 n m1 m2 m3 m4 c show ?thesis unfolding s2 s3 by blast
qed

end
